theory Spec2Isabelle
  imports
    Main
    "HOL-Library.Char_ord"
    "HOL-Library.List_Lexorder"
    "HOL-Library.Multiset"
begin

section \<open>Strings\<close>

text \<open>
  A Go string is a sequence of bytes; it is modelled as \<^typ>\<open>string\<close>, a list of 8-bit
  characters. Comparison of strings with \<open><\<close> is Go's bytewise lexicographic order
  (the order of lists over the order of character codes). The functions of package
  \<open>strings\<close> below follow the library on ASCII text: letters are \<open>A\<close> to \<open>Z\<close> and
  \<open>a\<close> to \<open>z\<close>, and the white space of \<open>TrimSpace\<close> is tab, line feed, vertical tab,
  form feed, carriage return and space. Bytes from \<open>0x80\<close> on are carried through
  unchanged (Unicode case mapping and Unicode white space are outside the model).
\<close>

definition is_upper :: "char \<Rightarrow> bool" where
  "is_upper c = (CHR ''A'' \<le> c \<and> c \<le> CHR ''Z'')"

definition is_lower :: "char \<Rightarrow> bool" where
  "is_lower c = (CHR ''a'' \<le> c \<and> c \<le> CHR ''z'')"

definition is_digit :: "char \<Rightarrow> bool" where
  "is_digit c = (CHR ''0'' \<le> c \<and> c \<le> CHR ''9'')"

definition lower_char :: "char \<Rightarrow> char" where
  "lower_char c = (if is_upper c then char_of (of_char c + (32::nat)) else c)"

definition upper_char :: "char \<Rightarrow> char" where
  "upper_char c = (if is_lower c then char_of (of_char c - (32::nat)) else c)"

definition ToLower :: "string \<Rightarrow> string" where
  "ToLower s = map lower_char s"

definition ToUpper :: "string \<Rightarrow> string" where
  "ToUpper s = map upper_char s"

definition is_trim_space :: "char \<Rightarrow> bool" where
  "is_trim_space c = (c = CHR 0x09 \<or> c = CHR 0x0A \<or> c = CHR 0x0B \<or> c = CHR 0x0C
     \<or> c = CHR 0x0D \<or> c = CHR 0x20)"

definition TrimLeft :: "string \<Rightarrow> string" where
  "TrimLeft s = dropWhile is_trim_space s"

definition TrimRight :: "string \<Rightarrow> string" where
  "TrimRight s = rev (dropWhile is_trim_space (rev s))"

definition TrimSpace :: "string \<Rightarrow> string" where
  "TrimSpace s = TrimRight (TrimLeft s)"

definition HasSuffix :: "string \<Rightarrow> string \<Rightarrow> bool" where
  "HasSuffix s suffix =
     (length suffix \<le> length s \<and> drop (length s - length suffix) s = suffix)"

definition HasPrefix :: "string \<Rightarrow> string \<Rightarrow> bool" where
  "HasPrefix s pre = (take (length pre) s = pre)"

fun Contains :: "string \<Rightarrow> string \<Rightarrow> bool" where
  "Contains [] substr = (substr = [])"
| "Contains (c # cs) substr = (HasPrefix (c # cs) substr \<or> Contains cs substr)"

text \<open>The verb \<open>%d\<close> of \<open>fmt.Printf\<close> on a non-negative \<open>int\<close>: decimal digits.\<close>

fun show_nat :: "nat \<Rightarrow> string" where
  "show_nat n =
     (if n < 10 then [''0123456789'' ! n]
      else show_nat (n div 10) @ [''0123456789'' ! (n mod 10)])"

section \<open>Regular expressions\<close>

text \<open>
  Package \<open>regexp\<close> is Go's library; the program uses it through patterns built from
  character classes, concatenation, alternation, greedy and lazy repetition, an optional
  group and the end-of-text assertion. \<open>regexp\<close> returns the match that starts leftmost
  and, among those, the one a backtracking search finds first. \<open>ms r s\<close> lists, in the
  order a backtracking search tries them, the remainders of \<open>s\<close> after each way of
  matching \<open>r\<close> at the start of \<open>s\<close>; its head is the preferred match.
\<close>

datatype regex =
    Atom "char \<Rightarrow> bool"
  | Eps
  | EOT
  | Cat regex regex
  | Alt regex regex
  | Star regex
  | LazyStar regex

function ms :: "regex \<Rightarrow> string \<Rightarrow> string list" where
  "ms (Atom P) s = (case s of [] \<Rightarrow> [] | c # cs \<Rightarrow> if P c then [cs] else [])"
| "ms Eps s = [s]"
| "ms EOT s = (if s = [] then [s] else [])"
| "ms (Cat r1 r2) s = concat (map (ms r2) (ms r1 s))"
| "ms (Alt r1 r2) s = ms r1 s @ ms r2 s"
| "ms (Star r) s =
     concat (map (ms (Star r)) (filter (\<lambda>t. length t < length s) (ms r s))) @ [s]"
| "ms (LazyStar r) s =
     s # concat (map (ms (LazyStar r)) (filter (\<lambda>t. length t < length s) (ms r s)))"
  by pat_completeness auto
termination
  by (relation "inv_image (less_than <*lex*> less_than) (\<lambda>(r, s). (size r, length s))") auto

declare ms.simps(6,7) [simp del]

definition Plus :: "regex \<Rightarrow> regex" where
  "Plus r = Cat r (Star r)"

definition LazyPlus :: "regex \<Rightarrow> regex" where
  "LazyPlus r = Cat r (LazyStar r)"

definition Opt :: "regex \<Rightarrow> regex" where
  "Opt r = Alt r Eps"

definition Lit :: "char \<Rightarrow> regex" where
  "Lit c = Atom (\<lambda>x. x = c)"

text \<open>A literal word under the flag \<open>(?i)\<close>: each letter matches in either case.\<close>

fun lit_ci :: "string \<Rightarrow> regex" where
  "lit_ci [] = Eps"
| "lit_ci (c # cs) = Cat (Atom (\<lambda>x. upper_char x = upper_char c)) (lit_ci cs)"

fun alts :: "regex list \<Rightarrow> regex" where
  "alts [] = Atom (\<lambda>x. False)"
| "alts [r] = r"
| "alts (r # rs) = Alt r (alts rs)"

text \<open>The classes \<open>\s\<close> (tab, line feed, form feed, carriage return, space), \<open>\d\<close>,
  \<open>\w\<close> and \<open>[\s\S]\<close> of the RE2 syntax.\<close>

definition re_space :: "char \<Rightarrow> bool" where
  "re_space c = (c = CHR 0x09 \<or> c = CHR 0x0A \<or> c = CHR 0x0C \<or> c = CHR 0x0D \<or> c = CHR 0x20)"

definition re_word :: "char \<Rightarrow> bool" where
  "re_word c = (is_digit c \<or> is_upper c \<or> is_lower c \<or> c = CHR ''_'')"

definition re_any :: "char \<Rightarrow> bool" where
  "re_any c = True"

definition first_match :: "regex \<Rightarrow> string \<Rightarrow> string option" where
  "first_match r s = (case ms r s of [] \<Rightarrow> None | t # _ \<Rightarrow> Some t)"

text \<open>
  \<open>ReplaceAllString\<close> and \<open>FindAllString\<close> scan the text from the left: at each position
  they take the preferred match starting there, if there is one, and go on after it;
  otherwise they move one character on. Every pattern of this program needs at least one
  character, so the library's special treatment of empty matches never applies; a match
  that consumes nothing is treated as no match.
\<close>

function ReplaceAllString :: "regex \<Rightarrow> string \<Rightarrow> string \<Rightarrow> string" where
  "ReplaceAllString re [] repl = []"
| "ReplaceAllString re (c # cs) repl =
     (case first_match re (c # cs) of
        None \<Rightarrow> c # ReplaceAllString re cs repl
      | Some t \<Rightarrow>
          if length t < length (c # cs) then repl @ ReplaceAllString re t repl
          else c # ReplaceAllString re cs repl)"
  by pat_completeness auto
termination
  by (relation "measure (\<lambda>(re, s, repl). length s)") auto

function FindAllString :: "regex \<Rightarrow> string \<Rightarrow> string list" where
  "FindAllString re [] = []"
| "FindAllString re (c # cs) =
     (case first_match re (c # cs) of
        None \<Rightarrow> FindAllString re cs
      | Some t \<Rightarrow>
          if length t < length (c # cs)
          then take (length (c # cs) - length t) (c # cs) # FindAllString re t
          else FindAllString re cs)"
  by pat_completeness auto
termination
  by (relation "measure (\<lambda>(re, s). length s)") auto

section \<open>The program\<close>

record QueryResult =
  FilePath :: string
  Query :: string
  Normalized :: string

subsection \<open>normalizeQuery\<close>

text \<open>The pattern \<open>[\s\n\r\t]+\<close> of the first step, and the table of replacements.\<close>

definition re_whitespace :: regex where
  "re_whitespace = Plus (Atom re_space)"

definition re_around :: "char \<Rightarrow> regex" where
  "re_around c = Cat (Star (Atom re_space)) (Cat (Lit c) (Star (Atom re_space)))"

definition re_quoted :: "char \<Rightarrow> regex" where
  "re_quoted q = Cat (Lit q) (Cat (Star (Atom (\<lambda>x. x \<noteq> q))) (Lit q))"

definition replacements :: "(regex \<times> string) list" where
  "replacements =
     [(re_around CHR ''='', '' = ''),
      (re_around CHR '','', '', ''),
      (Plus (Atom re_space), '' ''),
      (Plus (Atom is_digit), ''N''),
      (re_quoted CHR 0x27, ''S''),
      (re_quoted CHR 0x22, ''S''),
      (re_around CHR ''('', '' ( ''),
      (re_around CHR '')'', '' ) '')]"

definition normalizeQuery :: "string \<Rightarrow> string" where
  "normalizeQuery query =
     (let normalized = ReplaceAllString re_whitespace query '' '';
          normalized = TrimSpace normalized;
          normalized = ToLower normalized
      in foldl (\<lambda>normalized (pattern, replacement).
                  ReplaceAllString pattern normalized replacement)
           normalized replacements)"

subsection \<open>findSQLQueries\<close>

definition any_lazy :: regex where
  "any_lazy = LazyPlus (Atom re_any)"

definition spaces :: regex where
  "spaces = Plus (Atom re_space)"

definition sql_statement :: regex where
  "sql_statement = alts
     [Cat (lit_ci ''SELECT'') (Cat spaces (Cat any_lazy
        (Opt (Cat (lit_ci ''FROM'') any_lazy)))),
      Cat (lit_ci ''INSERT'') (Cat spaces (Cat (lit_ci ''INTO'') any_lazy)),
      Cat (lit_ci ''UPDATE'') (Cat spaces (Cat (Plus (Atom re_word))
        (Cat spaces (Cat (lit_ci ''SET'') any_lazy)))),
      Cat (lit_ci ''DELETE'') (Cat spaces (Cat (lit_ci ''FROM'') any_lazy)),
      Cat (lit_ci ''CREATE'') (Cat spaces
        (Cat (alts [lit_ci ''TABLE'', lit_ci ''DATABASE'', lit_ci ''INDEX'']) any_lazy)),
      Cat (lit_ci ''ALTER'') (Cat spaces (Cat (lit_ci ''TABLE'') any_lazy)),
      Cat (lit_ci ''DROP'') (Cat spaces
        (Cat (alts [lit_ci ''TABLE'', lit_ci ''DATABASE'']) any_lazy)),
      Cat (lit_ci ''TRUNCATE'') (Cat spaces (Cat (lit_ci ''TABLE'') any_lazy))]"

definition sql_pattern :: regex where
  "sql_pattern = Cat sql_statement (Alt (Lit CHR '';'') EOT)"

definition looks_like_sql :: "string \<Rightarrow> bool" where
  "looks_like_sql cleaned =
     (length cleaned > 0 \<and>
      (HasSuffix cleaned '';'' \<or>
       Contains (ToUpper cleaned) ''SELECT'' \<or>
       Contains (ToUpper cleaned) ''INSERT'' \<or>
       Contains (ToUpper cleaned) ''UPDATE''))"

fun clean_and_validate :: "string list \<Rightarrow> string list \<Rightarrow> string list" where
  "clean_and_validate result [] = result"
| "clean_and_validate result (match # matches) =
     (let cleaned = TrimSpace match
      in if looks_like_sql cleaned
         then clean_and_validate (result @ [cleaned]) matches
         else clean_and_validate result matches)"

definition findSQLQueries :: "string \<Rightarrow> string list" where
  "findSQLQueries text = clean_and_validate [] (FindAllString sql_pattern text)"

subsection \<open>findDuplicates\<close>

text \<open>
  A Go map from strings to slices is a partial function. A \<open>range\<close> over a map visits
  each key once, in an order the runtime chooses: the functions that range over a map
  take that order as a list of the keys, \<open>range_order\<close>.
\<close>

type_synonym groups = "string \<rightharpoonup> QueryResult list"

definition range_order :: "string list \<Rightarrow> groups \<Rightarrow> bool" where
  "range_order keys m = (distinct keys \<and> set keys = dom m)"

definition entry :: "groups \<Rightarrow> string \<Rightarrow> QueryResult list" where
  "entry m k = (case m k of None \<Rightarrow> [] | Some v \<Rightarrow> v)"

definition append_query :: "groups \<Rightarrow> QueryResult \<Rightarrow> groups" where
  "append_query duplicates query =
     duplicates(Normalized query \<mapsto> entry duplicates (Normalized query) @ [query])"

definition group_queries :: "QueryResult list \<Rightarrow> groups" where
  "group_queries queries = foldl append_query Map.empty queries"

definition delete_single :: "string \<Rightarrow> groups \<Rightarrow> groups" where
  "delete_single key duplicates =
     (if length (entry duplicates key) = 1 then duplicates(key := None) else duplicates)"

definition findDuplicates :: "string list \<Rightarrow> QueryResult list \<Rightarrow> groups" where
  "findDuplicates keys queries = fold delete_single keys (group_queries queries)"

subsection \<open>printResults\<close>

text \<open>
  \<open>sort.Slice\<close> orders a slice by the given function \<open>less\<close> (here \<open>lt\<close>); the library does not fix the
  algorithm. It is modelled by insertion sort; \<open>sorted_by_unique\<close> below shows that on
  the keys of a map, with the \<open>less\<close> of this program, every sorting algorithm returns
  the same slice.
\<close>

fun insert_by :: "('a \<Rightarrow> 'a \<Rightarrow> bool) \<Rightarrow> 'a \<Rightarrow> 'a list \<Rightarrow> 'a list" where
  "insert_by lt x [] = [x]"
| "insert_by lt x (y # ys) =
     (if lt x y then x # y # ys else y # insert_by lt x ys)"

definition sort_Slice :: "('a \<Rightarrow> 'a \<Rightarrow> bool) \<Rightarrow> 'a list \<Rightarrow> 'a list" where
  "sort_Slice lt xs = foldr (insert_by lt) xs []"

definition less_keys :: "groups \<Rightarrow> string \<Rightarrow> string \<Rightarrow> bool" where
  "less_keys duplicates a b =
     (if length (entry duplicates a) \<noteq> length (entry duplicates b)
      then length (entry duplicates a) > length (entry duplicates b)
      else a < b)"

definition group_line :: "groups \<Rightarrow> string \<Rightarrow> string" where
  "group_line duplicates k =
     ''Count: '' @ show_nat (length (entry duplicates k)) @
     '' -- Normalized Query:'' @ [CHR 0x09] @ '' '' @ k @ [CHR 0x0A]"

text \<open>The text written to standard output; \<open>keys\<close> is the order of the \<open>range\<close> that
  collects the keys, so its length is \<open>len(duplicates)\<close>.\<close>

definition printResults :: "string list \<Rightarrow> groups \<Rightarrow> string" where
  "printResults keys duplicates =
     (if length keys = 0 then ''No duplicate queries found'' @ [CHR 0x0A]
      else ''Found '' @ show_nat (length keys) @ '' duplicate queries'' @ [CHR 0x0A] @
           concat (map (group_line duplicates) (sort_Slice (less_keys duplicates) keys)))"

subsection \<open>Auxiliary notions for the statements\<close>

text \<open>A strict total order, as \<open>sort.Slice\<close> needs it for a result that is determined.\<close>

definition strict_total :: "('a \<Rightarrow> 'a \<Rightarrow> bool) \<Rightarrow> bool" where
  "strict_total lt = ((\<forall>x. \<not> lt x x) \<and> (\<forall>x y z. lt x y \<longrightarrow> lt y z \<longrightarrow> lt x z)
     \<and> (\<forall>x y. x \<noteq> y \<longrightarrow> lt x y \<or> lt y x))"

text \<open>An occurrence in file \<open>f\<close> whose text is already normalized, for the examples.\<close>

definition occ :: "string \<Rightarrow> string \<Rightarrow> QueryResult" where
  "occ f n = \<lparr>FilePath = f, Query = n, Normalized = n\<rparr>"

subsection \<open>Auxiliary notions for the normalized form\<close>

text \<open>
  \<open>rejects c r\<close>: no match of \<open>r\<close> contains the character \<open>c\<close>, and \<open>r\<close> does not look
  at the end of the text. \<open>stable_under f r\<close>: the classes of \<open>r\<close> do not tell \<open>c\<close> from
  \<open>f c\<close>. The steps of \<open>normalizeQuery\<close> are named: \<open>squeeze\<close> (step 1), \<open>spacing\<close>
  (the replacements around \<open>=\<close> and \<open>,\<close> and of runs of white space), \<open>numbers\<close>,
  \<open>quoted\<close> and \<open>parens\<close>; \<open>front\<close> is the steps before \<open>numbers\<close>, and \<open>frontL\<close>,
  \<open>frontM\<close>, \<open>frontR\<close> are \<open>front\<close> on the left part, a middle part and the right part
  of a text (trimmed on the outer side only). \<open>differ_only ok x y\<close>: the statements
  \<open>x\<close> and \<open>y\<close> differ only in letter case, white space, digits of numbers and contents
  of quoted literals, where \<open>ok\<close> restricts the contents of the double-quoted literals
  that may change. A single-quoted literal is the text between an odd single quote and
  the next one. A double-quoted literal is the text between two double quotes that
  follow each other, when the first is an odd one among the double quotes outside the
  single-quoted literals before it, and is not itself within a single-quoted literal
  (the single quotes before it are even in number, or none follows).
\<close>

fun rejects :: "char \<Rightarrow> regex \<Rightarrow> bool" where
  "rejects c (Atom P) = (\<not> P c)"
| "rejects c Eps = True"
| "rejects c EOT = False"
| "rejects c (Cat r1 r2) = (rejects c r1 \<and> rejects c r2)"
| "rejects c (Alt r1 r2) = (rejects c r1 \<and> rejects c r2)"
| "rejects c (Star r) = rejects c r"
| "rejects c (LazyStar r) = rejects c r"

fun stable_under :: "(char \<Rightarrow> char) \<Rightarrow> regex \<Rightarrow> bool" where
  "stable_under f (Atom P) = (\<forall>c. P (f c) = P c)"
| "stable_under f Eps = True"
| "stable_under f EOT = True"
| "stable_under f (Cat r1 r2) = (stable_under f r1 \<and> stable_under f r2)"
| "stable_under f (Alt r1 r2) = (stable_under f r1 \<and> stable_under f r2)"
| "stable_under f (Star r) = stable_under f r"
| "stable_under f (LazyStar r) = stable_under f r"

definition squeeze :: "string \<Rightarrow> string" where
  "squeeze s = ReplaceAllString re_whitespace s '' ''"

definition spacing :: "string \<Rightarrow> string" where
  "spacing s =
     ReplaceAllString (Plus (Atom re_space))
       (ReplaceAllString (re_around CHR '','')
          (ReplaceAllString (re_around CHR ''='') s '' = '') '', '') '' ''"

definition numbers :: "string \<Rightarrow> string" where
  "numbers s = ReplaceAllString (Plus (Atom is_digit)) s ''N''"

definition quoted :: "char \<Rightarrow> string \<Rightarrow> string" where
  "quoted q s = ReplaceAllString (re_quoted q) s ''S''"

definition parens :: "string \<Rightarrow> string" where
  "parens s =
     ReplaceAllString (re_around CHR '')'') (ReplaceAllString (re_around CHR ''('') s '' ( '') '' ) ''"

definition front :: "string \<Rightarrow> string" where
  "front s = spacing (ToLower (TrimSpace (squeeze s)))"




definition inert :: "char \<Rightarrow> bool" where
  "inert q = (\<not> is_trim_space q \<and> q \<noteq> CHR ''='' \<and> q \<noteq> CHR '','' \<and> \<not> is_upper q)"

definition mark :: "char \<Rightarrow> bool" where
  "mark q = (inert q \<and> \<not> is_lower q \<and> \<not> is_digit q)"



subsection \<open>Auxiliary notions for the second pass\<close>

text \<open>
  A text whose white space is blanks only is a list of tokens (characters that are not
  white space) with the numbers of blanks between them: \<open>rend g ts\<close> is \<open>g\<close> blanks
  followed by each token of \<open>ts\<close> and the blanks after it. A \<open>gap_rule\<close> gives the new
  number of blanks of a gap from the token before it (\<open>None\<close> at the start), its
  number of blanks and the token after it (\<open>None\<close> at the end); \<open>regap\<close> applies a rule
  to every gap. \<open>tokenless\<close>: no decimal digit, at most one single quote and at most
  one double quote, so that no step writes a token \<open>N\<close> or \<open>S\<close>. \<open>lowered\<close>: no
  character that \<open>ToLower\<close> changes.
\<close>

definition blanks :: "nat \<Rightarrow> string" where
  "blanks n = replicate n (CHR '' '')"

fun rend :: "nat \<Rightarrow> (char \<times> nat) list \<Rightarrow> string" where
  "rend g [] = blanks g"
| "rend g ((c, g') # ts) = blanks g @ c # rend g' ts"

definition next_token :: "(char \<times> nat) list \<Rightarrow> char option" where
  "next_token ts = (case ts of [] \<Rightarrow> None | (c, g) # _ \<Rightarrow> Some c)"

type_synonym gap_rule = "char option \<Rightarrow> nat \<Rightarrow> char option \<Rightarrow> nat"

fun rest_gaps :: "gap_rule \<Rightarrow> (char \<times> nat) list \<Rightarrow> (char \<times> nat) list" where
  "rest_gaps \<gamma> [] = []"
| "rest_gaps \<gamma> ((c, g) # ts) = (c, \<gamma> (Some c) g (next_token ts)) # rest_gaps \<gamma> ts"

definition regap :: "gap_rule \<Rightarrow> nat \<times> (char \<times> nat) list \<Rightarrow> nat \<times> (char \<times> nat) list" where
  "regap \<gamma> gt = (\<gamma> None (fst gt) (next_token (snd gt)), rest_gaps \<gamma> (snd gt))"

definition rendp :: "nat \<times> (char \<times> nat) list \<Rightarrow> string" where
  "rendp gt = rend (fst gt) (snd gt)"

definition tokens_ok :: "(char \<times> nat) list \<Rightarrow> bool" where
  "tokens_ok ts = list_all (\<lambda>t. \<not> re_space (fst t)) ts"

definition around_rule :: "char \<Rightarrow> nat \<Rightarrow> nat \<Rightarrow> gap_rule" where
  "around_rule x a b p g n =
     (if p = Some x then b + (if n = Some x then a else 0)
      else if n = Some x then a else g)"

definition squeeze_rule :: gap_rule where
  "squeeze_rule p g n = (if g = 0 then 0 else 1)"

definition trim_rule :: gap_rule where
  "trim_rule p g n = (if p = None \<or> n = None then 0 else g)"

definition then_rule :: "gap_rule \<Rightarrow> gap_rule \<Rightarrow> gap_rule" where
  "then_rule \<gamma>1 \<gamma>2 p g n = \<gamma>2 p (\<gamma>1 p g n) n"

definition spacing_rule :: gap_rule where
  "spacing_rule =
     then_rule (around_rule CHR ''='' 1 1) (then_rule (around_rule CHR '','' 0 1) squeeze_rule)"

definition parens_rule :: gap_rule where
  "parens_rule = then_rule (around_rule CHR ''('' 1 1) (around_rule CHR '')'' 1 1)"

definition normal_rule :: gap_rule where
  "normal_rule = then_rule spacing_rule parens_rule"

definition second_rule :: gap_rule where
  "second_rule = then_rule normal_rule (then_rule squeeze_rule (then_rule trim_rule normal_rule))"

definition edges_ok :: "(char \<times> nat) list \<Rightarrow> bool" where
  "edges_ok ts = (ts = [] \<or> (\<not> is_trim_space (fst (hd ts)) \<and> \<not> is_trim_space (fst (last ts))))"

definition tight :: "nat \<times> (char \<times> nat) list \<Rightarrow> bool" where
  "tight gt = (fst gt = 0 \<and> edges_ok (snd gt) \<and> (snd gt = [] \<or> snd (last (snd gt)) = 0))"

definition tokenless :: "string \<Rightarrow> bool" where
  "tokenless s = (list_all (\<lambda>c. \<not> is_digit c) s \<and> count_list s (CHR 0x27) \<le> 1
     \<and> count_list s (CHR 0x22) \<le> 1)"

definition lowered :: "string \<Rightarrow> bool" where
  "lowered s = list_all (\<lambda>c. lower_char c = c) s"

section \<open>Grouping\<close>


lemma entry_upd: "entry (m(k \<mapsto> v)) k' = (if k' = k then v else entry m k')"
  by (simp add: entry_def)

lemma foldl_append_query:
  "entry (foldl append_query m qs) k = entry m k @ filter (\<lambda>q. Normalized q = k) qs"
proof (induction qs arbitrary: m)
  case Nil
  show ?case by simp
next
  case (Cons q qs)
  show ?case
    by (simp add: Cons.IH) (simp add: append_query_def entry_def)
qed

lemma dom_foldl_append_query:
  "dom (foldl append_query m qs) = dom m \<union> Normalized ` set qs"
  by (induction qs arbitrary: m) (auto simp: append_query_def)

lemma dom_group_queries: "dom (group_queries qs) = Normalized ` set qs"
  by (simp add: group_queries_def dom_foldl_append_query)

lemma entry_group_queries:
  "entry (group_queries qs) k = filter (\<lambda>q. Normalized q = k) qs"
  by (simp add: group_queries_def foldl_append_query) (simp add: entry_def)

lemma group_queries_lookup:
  "group_queries qs k =
     (if k \<in> Normalized ` set qs then Some (filter (\<lambda>q. Normalized q = k) qs) else None)"
proof (cases "k \<in> Normalized ` set qs")
  case True
  then have "k \<in> dom (group_queries qs)" by (simp add: dom_group_queries)
  then obtain v where v: "group_queries qs k = Some v" by auto
  then have "entry (group_queries qs) k = v" by (simp add: entry_def)
  with v True show ?thesis by (simp add: entry_group_queries)
next
  case False
  then have "k \<notin> dom (group_queries qs)" by (simp add: dom_group_queries)
  with False show ?thesis by auto
qed

lemma range_order_exists: "range_order (remdups (map Normalized qs)) (group_queries qs)"
  by (simp add: range_order_def dom_group_queries)

lemma fold_delete_single:
  "fold delete_single ks m k =
     (if k \<in> set ks \<and> length (entry m k) = 1 then None else m k)"
proof (induction ks arbitrary: m)
  case Nil
  show ?case by simp
next
  case (Cons a ks)
  show ?case
    by (simp add: Cons.IH) (auto simp: delete_single_def entry_def split: option.splits)
qed

lemma findDuplicates_lookup:
  assumes "range_order ks (group_queries qs)"
  shows "findDuplicates ks qs k =
     (if 2 \<le> length (filter (\<lambda>q. Normalized q = k) qs)
      then Some (filter (\<lambda>q. Normalized q = k) qs) else None)"
proof -
  let ?f = "filter (\<lambda>q. Normalized q = k) qs"
  have ks: "set ks = Normalized ` set qs"
    using assms by (simp add: range_order_def dom_group_queries)
  have mem: "k \<in> Normalized ` set qs \<longleftrightarrow> ?f \<noteq> []"
    by (auto simp: filter_empty_conv)
  have "findDuplicates ks qs k =
      (if k \<in> set ks \<and> length ?f = 1 then None else group_queries qs k)"
    by (simp add: findDuplicates_def fold_delete_single entry_group_queries)
  also have "\<dots> = (if 2 \<le> length ?f then Some ?f else None)"
  proof (cases ?f)
    case Nil
    then show ?thesis using mem by (simp add: group_queries_lookup)
  next
    case (Cons a as)
    then show ?thesis using mem ks by (cases as) (simp_all add: group_queries_lookup)
  qed
  finally show ?thesis .
qed

lemma dom_findDuplicates:
  assumes "range_order ks (group_queries qs)"
  shows "dom (findDuplicates ks qs) = {k. 2 \<le> length (filter (\<lambda>q. Normalized q = k) qs)}"
  by (auto simp: findDuplicates_lookup [OF assms] dom_def)

lemma entry_findDuplicates:
  assumes "range_order ks (group_queries qs)"
  shows "length (entry (findDuplicates ks qs) k) =
     (if 2 \<le> length (filter (\<lambda>q. Normalized q = k) qs)
      then length (filter (\<lambda>q. Normalized q = k) qs) else 0)"
  by (simp add: entry_def findDuplicates_lookup [OF assms])

subsection \<open>Sorting by a strict total order\<close>

lemma set_insert_by: "set (insert_by lt x xs) = insert x (set xs)"
  by (induction xs) auto

lemma set_sort_Slice: "set (sort_Slice lt xs) = set xs"
  by (induction xs) (simp_all add: sort_Slice_def set_insert_by)

lemma length_insert_by: "length (insert_by lt x xs) = Suc (length xs)"
  by (induction xs) auto

lemma distinct_insert_by: "x \<notin> set xs \<Longrightarrow> distinct xs \<Longrightarrow> distinct (insert_by lt x xs)"
  by (induction xs) (auto simp: set_insert_by)

lemma distinct_sort_Slice: "distinct xs \<Longrightarrow> distinct (sort_Slice lt xs)"
proof (induction xs)
  case Nil
  show ?case by (simp add: sort_Slice_def)
next
  case (Cons a xs)
  then have "distinct (foldr (insert_by lt) xs [])" and "a \<notin> set (foldr (insert_by lt) xs [])"
    using set_sort_Slice [of lt xs] by (simp_all add: sort_Slice_def)
  then show ?case by (simp add: sort_Slice_def distinct_insert_by)
qed

lemma sorted_insert_by:
  assumes "strict_total lt" and "sorted_wrt lt xs" and "x \<notin> set xs"
  shows "sorted_wrt lt (insert_by lt x xs)"
  using assms(2,3)
proof (induction xs)
  case Nil
  show ?case by simp
next
  case (Cons y ys)
  have tr: "\<And>a b c. lt a b \<Longrightarrow> lt b c \<Longrightarrow> lt a c"
    using assms(1) unfolding strict_total_def by blast
  have tot: "\<And>a b. a \<noteq> b \<Longrightarrow> \<not> lt a b \<Longrightarrow> lt b a"
    using assms(1) unfolding strict_total_def by blast
  show ?case
  proof (cases "lt x y")
    case True
    then show ?thesis using Cons.prems tr by auto
  next
    case False
    then have "lt y x" using tot [of x y] Cons.prems by auto
    then show ?thesis using False Cons by (auto simp: set_insert_by)
  qed
qed

lemma sorted_sort_Slice:
  assumes "strict_total lt" and "distinct xs"
  shows "sorted_wrt lt (sort_Slice lt xs)"
  using assms(2)
proof (induction xs)
  case Nil
  show ?case by (simp add: sort_Slice_def)
next
  case (Cons a xs)
  then have "sorted_wrt lt (foldr (insert_by lt) xs [])" and "a \<notin> set (foldr (insert_by lt) xs [])"
    using set_sort_Slice [of lt xs] by (simp_all add: sort_Slice_def)
  then show ?case by (simp add: sort_Slice_def sorted_insert_by [OF assms(1)])
qed

lemma sorted_by_unique:
  assumes "strict_total lt" and "sorted_wrt lt xs" and "sorted_wrt lt ys" and "set xs = set ys"
  shows "xs = ys"
  using assms(2-)
proof (induction xs arbitrary: ys)
  case Nil
  then show ?case by simp
next
  case (Cons x xs)
  have irr: "\<And>a. \<not> lt a a" and tr: "\<And>a b c. lt a b \<Longrightarrow> lt b c \<Longrightarrow> lt a c"
    using assms(1) unfolding strict_total_def by blast+
  from Cons.prems obtain y ys' where ys: "ys = y # ys'" by (cases ys) auto
  have xy: "x = y"
  proof (rule ccontr)
    assume ne: "x \<noteq> y"
    then have "x \<in> set ys'" and "y \<in> set xs" using Cons.prems(3) ys by auto
    then have "lt y x" and "lt x y" using Cons.prems(1,2) ys by auto
    then show False using irr tr by blast
  qed
  have "x \<notin> set xs" and "y \<notin> set ys'" using Cons.prems(1,2) ys irr by auto
  then have "set xs = set ys'" using Cons.prems(3) ys xy by auto
  then have "xs = ys'" using Cons.IH Cons.prems(1,2) ys by simp
  then show ?case using xy ys by simp
qed

lemma strict_total_less_keys: "strict_total (less_keys d)"
  unfolding strict_total_def less_keys_def by (auto split: if_splits)

lemma sort_Slice_order_irrelevant:
  assumes "strict_total lt" and "distinct xs" and "distinct ys" and "set xs = set ys"
  shows "sort_Slice lt xs = sort_Slice lt ys"
  by (rule sorted_by_unique [OF assms(1)])
     (simp_all add: sorted_sort_Slice assms set_sort_Slice)

lemma printResults_order_irrelevant:
  assumes "range_order ks d" and "range_order ks' d"
  shows "printResults ks d = printResults ks' d"
proof -
  have s: "set ks = set ks'" and dk: "distinct ks" "distinct ks'"
    using assms by (simp_all add: range_order_def)
  then have "length ks = length ks'"
    by (metis distinct_card)
  moreover have "sort_Slice (less_keys d) ks = sort_Slice (less_keys d) ks'"
    using sort_Slice_order_irrelevant [OF strict_total_less_keys dk s] .
  ultimately show ?thesis by (simp add: printResults_def)
qed

section \<open>The aggregator and the presenter\<close>


lemma length_range_order: "range_order ks d \<Longrightarrow> length ks = card (dom d)"
  by (metis distinct_card range_order_def)

lemma printResults_nonempty:
  assumes "range_order ks d" and "dom d \<noteq> {}"
  shows "printResults ks d =
     ''Found '' @ show_nat (card (dom d)) @ '' duplicate queries'' @ [CHR 0x0A] @
     concat (map (group_line d) (sort_Slice (less_keys d) ks))"
proof -
  have "set ks \<noteq> {}" using assms by (simp add: range_order_def)
  then have "length ks \<noteq> 0" by auto
  then have "printResults ks d =
     ''Found '' @ show_nat (length ks) @ '' duplicate queries'' @ [CHR 0x0A] @
     concat (map (group_line d) (sort_Slice (less_keys d) ks))"
    unfolding printResults_def by (rule if_not_P)
  then show ?thesis
    unfolding length_range_order [OF assms(1)] .
qed

text \<open>
  Claim C2. Whatever order the deleting \<open>range\<close> takes, \<open>findDuplicates\<close> returns the
  map that holds exactly the normalized forms occurring at least twice in the input,
  each with all its occurrences in input order; a form occurring once (or not at all) is
  not a key of the result.
\<close>

theorem findDuplicates_groups:
  assumes "range_order keys (group_queries queries)"
  shows "findDuplicates keys queries k =
     (if 2 \<le> length (filter (\<lambda>q. Normalized q = k) queries)
      then Some (filter (\<lambda>q. Normalized q = k) queries) else None)"
  using assms by (rule findDuplicates_lookup)

lemma occ_simps [simp]: "Normalized (occ f n) = n" "FilePath (occ f n) = f" "Query (occ f n) = n"
  by (simp_all add: occ_def)

theorem findDuplicates_groups_witness:
  "range_order [''b'', ''a''] (group_queries [occ ''1'' ''a'', occ ''2'' ''b'', occ ''3'' ''a''])
   \<and> findDuplicates [''b'', ''a''] [occ ''1'' ''a'', occ ''2'' ''b'', occ ''3'' ''a''] ''a''
       = Some [occ ''1'' ''a'', occ ''3'' ''a'']
   \<and> findDuplicates [''b'', ''a''] [occ ''1'' ''a'', occ ''2'' ''b'', occ ''3'' ''a''] ''b''
       = None"
proof -
  have h: "range_order [''b'', ''a'']
      (group_queries [occ ''1'' ''a'', occ ''2'' ''b'', occ ''3'' ''a''])"
    by (auto simp: range_order_def dom_group_queries)
  show ?thesis
    using h findDuplicates_groups [OF h, of "''a''"] findDuplicates_groups [OF h, of "''b''"]
    by simp
qed

text \<open>
  Claim C3. For a non-empty map, \<open>printResults\<close> writes the header and then one line
  for each key, the keys ordered by descending number of occurrences and, where the
  numbers are equal, by ascending key; the text does not depend on the order in which the
  \<open>range\<close> collected the keys, so two invocations on the same map write the same bytes.
\<close>

theorem printResults_sorted:
  assumes "range_order keys d" and "range_order keys' d" and "dom d \<noteq> {}"
  shows "printResults keys' d = printResults keys d \<and>
     (\<exists>ks. printResults keys d =
          ''Found '' @ show_nat (card (dom d)) @ '' duplicate queries'' @ [CHR 0x0A] @
          concat (map (group_line d) ks)
        \<and> distinct ks \<and> set ks = dom d
        \<and> sorted_wrt (\<lambda>a b. length (entry d a) > length (entry d b)
             \<or> (length (entry d a) = length (entry d b) \<and> a < b)) ks)"
proof -
  let ?ks = "sort_Slice (less_keys d) keys"
  have dk: "distinct keys" and sk: "set keys = dom d"
    using assms(1) by (simp_all add: range_order_def)
  have "sorted_wrt (less_keys d) ?ks"
    using sorted_sort_Slice [OF strict_total_less_keys dk] .
  then have "sorted_wrt (\<lambda>a b. length (entry d a) > length (entry d b)
             \<or> (length (entry d a) = length (entry d b) \<and> a < b)) ?ks"
    by (rule sorted_wrt_mono_rel [rotated]) (auto simp: less_keys_def split: if_splits)
  moreover have "distinct ?ks" using dk by (rule distinct_sort_Slice)
  moreover have "set ?ks = dom d" using sk by (simp add: set_sort_Slice)
  ultimately show ?thesis
    using printResults_order_irrelevant [OF assms(2,1)] printResults_nonempty [OF assms(1,3)]
    by blast
qed

theorem printResults_sorted_witness:
  "range_order [''a'', ''b'', ''c'']
     [''b'' \<mapsto> [occ ''1'' ''b'', occ ''2'' ''b''], ''a'' \<mapsto> [occ ''1'' ''a'', occ ''2'' ''a''],
      ''c'' \<mapsto> [occ ''1'' ''c'', occ ''2'' ''c'', occ ''3'' ''c'']]
   \<and> range_order [''c'', ''b'', ''a'']
     [''b'' \<mapsto> [occ ''1'' ''b'', occ ''2'' ''b''], ''a'' \<mapsto> [occ ''1'' ''a'', occ ''2'' ''a''],
      ''c'' \<mapsto> [occ ''1'' ''c'', occ ''2'' ''c'', occ ''3'' ''c'']]
   \<and> printResults [''c'', ''b'', ''a'']
     [''b'' \<mapsto> [occ ''1'' ''b'', occ ''2'' ''b''], ''a'' \<mapsto> [occ ''1'' ''a'', occ ''2'' ''a''],
      ''c'' \<mapsto> [occ ''1'' ''c'', occ ''2'' ''c'', occ ''3'' ''c'']]
     = printResults [''a'', ''b'', ''c'']
     [''b'' \<mapsto> [occ ''1'' ''b'', occ ''2'' ''b''], ''a'' \<mapsto> [occ ''1'' ''a'', occ ''2'' ''a''],
      ''c'' \<mapsto> [occ ''1'' ''c'', occ ''2'' ''c'', occ ''3'' ''c'']]
   \<and> printResults [''a'', ''b'', ''c'']
     [''b'' \<mapsto> [occ ''1'' ''b'', occ ''2'' ''b''], ''a'' \<mapsto> [occ ''1'' ''a'', occ ''2'' ''a''],
      ''c'' \<mapsto> [occ ''1'' ''c'', occ ''2'' ''c'', occ ''3'' ''c'']]
     = ''Found 3 duplicate queries'' @ [CHR 0x0A] @
       ''Count: 3 -- Normalized Query:'' @ [CHR 0x09] @ '' c'' @ [CHR 0x0A] @
       ''Count: 2 -- Normalized Query:'' @ [CHR 0x09] @ '' a'' @ [CHR 0x0A] @
       ''Count: 2 -- Normalized Query:'' @ [CHR 0x09] @ '' b'' @ [CHR 0x0A]"
proof -
  let ?d = "[''b'' \<mapsto> [occ ''1'' ''b'', occ ''2'' ''b''], ''a'' \<mapsto> [occ ''1'' ''a'', occ ''2'' ''a''],
      ''c'' \<mapsto> [occ ''1'' ''c'', occ ''2'' ''c'', occ ''3'' ''c'']]"
  have h1: "range_order [''a'', ''b'', ''c''] ?d" by (auto simp: range_order_def)
  have h2: "range_order [''c'', ''b'', ''a''] ?d" by (auto simp: range_order_def)
  have h3: "dom ?d \<noteq> {}" by simp
  have v: "printResults [''a'', ''b'', ''c''] ?d
     = ''Found 3 duplicate queries'' @ [CHR 0x0A] @
       ''Count: 3 -- Normalized Query:'' @ [CHR 0x09] @ '' c'' @ [CHR 0x0A] @
       ''Count: 2 -- Normalized Query:'' @ [CHR 0x09] @ '' a'' @ [CHR 0x0A] @
       ''Count: 2 -- Normalized Query:'' @ [CHR 0x09] @ '' b'' @ [CHR 0x0A]"
    by (simp add: printResults_def sort_Slice_def less_keys_def entry_def group_line_def)
  show ?thesis
    using h1 h2 v printResults_sorted [OF h1 h2 h3] by blast
qed

text \<open>
  Claim C7. The report does not depend on the order in which the occurrences were
  collected: for a permutation of the occurrences, and whatever orders the two
  \<open>range\<close> statements take, \<open>findDuplicates\<close> followed by \<open>printResults\<close> writes the same text.
\<close>

theorem report_order_independent:
  assumes "mset queries' = mset queries"
    and "range_order ks (group_queries queries)"
    and "range_order ks' (group_queries queries')"
    and "range_order ps (findDuplicates ks queries)"
    and "range_order ps' (findDuplicates ks' queries')"
  shows "printResults ps' (findDuplicates ks' queries') = printResults ps (findDuplicates ks queries)"
proof -
  let ?d = "findDuplicates ks queries" and ?d' = "findDuplicates ks' queries'"
  have len: "\<And>k. length (filter (\<lambda>q. Normalized q = k) queries')
      = length (filter (\<lambda>q. Normalized q = k) queries)"
    using assms(1) by (metis mset_filter size_mset)
  have dom: "dom ?d' = dom ?d"
    by (simp add: dom_findDuplicates [OF assms(2)] dom_findDuplicates [OF assms(3)] len)
  have ent: "\<And>k. length (entry ?d' k) = length (entry ?d k)"
    by (simp add: entry_findDuplicates [OF assms(2)] entry_findDuplicates [OF assms(3)] len)
  have lk: "less_keys ?d' = less_keys ?d"
    by (intro ext) (simp add: less_keys_def ent)
  have gl: "group_line ?d' = group_line ?d"
    by (intro ext) (simp add: group_line_def ent)
  have ds: "distinct ps" "distinct ps'" and st: "set ps' = set ps"
    using assms(4,5) dom by (simp_all add: range_order_def)
  then have "length ps' = length ps" by (metis distinct_card)
  moreover have "sort_Slice (less_keys ?d) ps' = sort_Slice (less_keys ?d) ps"
    using sort_Slice_order_irrelevant [OF strict_total_less_keys ds(2,1) st] .
  ultimately show ?thesis by (simp add: printResults_def lk gl)
qed

theorem report_order_independent_witness:
  "mset [occ ''2'' ''b'', occ ''1'' ''a'', occ ''3'' ''a'', occ ''4'' ''b'']
     = mset [occ ''1'' ''a'', occ ''2'' ''b'', occ ''3'' ''a'', occ ''4'' ''b'']
   \<and> printResults [''a'', ''b'']
       (findDuplicates [''a'', ''b'']
          [occ ''2'' ''b'', occ ''1'' ''a'', occ ''3'' ''a'', occ ''4'' ''b''])
     = printResults [''b'', ''a'']
       (findDuplicates [''b'', ''a'']
          [occ ''1'' ''a'', occ ''2'' ''b'', occ ''3'' ''a'', occ ''4'' ''b''])"
proof -
  let ?q = "[occ ''1'' ''a'', occ ''2'' ''b'', occ ''3'' ''a'', occ ''4'' ''b'']"
  let ?q' = "[occ ''2'' ''b'', occ ''1'' ''a'', occ ''3'' ''a'', occ ''4'' ''b'']"
  have h1: "mset ?q' = mset ?q" by simp
  have h2: "range_order [''b'', ''a''] (group_queries ?q)"
    by (auto simp: range_order_def dom_group_queries)
  have h3: "range_order [''a'', ''b''] (group_queries ?q')"
    by (auto simp: range_order_def dom_group_queries)
  have h4: "range_order [''b'', ''a''] (findDuplicates [''b'', ''a''] ?q)"
    by (auto simp: range_order_def dom_findDuplicates [OF h2])
  have h5: "range_order [''a'', ''b''] (findDuplicates [''a'', ''b''] ?q')"
    by (auto simp: range_order_def dom_findDuplicates [OF h3])
  show ?thesis
    using h1 report_order_independent [OF h1 h2 h3 h4 h5] by blast
qed

text \<open>
  Claim C8. On an empty map \<open>printResults\<close> writes the single line
  \<open>No duplicate queries found\<close> and nothing else.
\<close>

theorem printResults_empty:
  assumes "range_order keys d" and "dom d = {}"
  shows "printResults keys d = ''No duplicate queries found'' @ [CHR 0x0A]"
  using assms by (simp add: range_order_def printResults_def)

theorem printResults_empty_witness:
  "range_order [] (Map.empty :: groups) \<and> dom (Map.empty :: groups) = {}
   \<and> printResults [] Map.empty = ''No duplicate queries found'' @ [CHR 0x0A]"
proof -
  have h1: "range_order [] (Map.empty :: groups)" by (simp add: range_order_def)
  have h2: "dom (Map.empty :: groups) = {}" by simp
  show ?thesis using h1 h2 printResults_empty [OF h1 h2] by blast
qed

text \<open>
  Claim C9. In a non-empty report the number in the header line is the number of
  distinct normalized forms that occur at least twice, not the number of occurrences:
  in the example below six occurrences in two duplicate groups give \<open>Found 2\<close>.
\<close>

theorem header_counts_groups:
  assumes "range_order ks (group_queries queries)"
    and "range_order ps (findDuplicates ks queries)"
    and "ps \<noteq> []"
  shows "\<exists>rest. printResults ps (findDuplicates ks queries) =
     ''Found '' @
     show_nat (card {n. 2 \<le> length (filter (\<lambda>q. Normalized q = n) queries)}) @
     '' duplicate queries'' @ [CHR 0x0A] @ rest"
proof -
  have "dom (findDuplicates ks queries) \<noteq> {}"
    using assms(2,3) by (auto simp: range_order_def)
  from printResults_nonempty [OF assms(2) this] show ?thesis
    by (simp add: dom_findDuplicates [OF assms(1)])
qed

theorem header_counts_groups_witness:
  "card {n. 2 \<le> length (filter (\<lambda>q. Normalized q = n)
       [occ ''1'' ''a'', occ ''2'' ''b'', occ ''3'' ''a'', occ ''4'' ''b'', occ ''5'' ''a'', occ ''6'' ''c''])} = 2
   \<and> (\<exists>rest. printResults [''a'', ''b''] (findDuplicates [''c'', ''b'', ''a'']
       [occ ''1'' ''a'', occ ''2'' ''b'', occ ''3'' ''a'', occ ''4'' ''b'', occ ''5'' ''a'', occ ''6'' ''c''])
       = ''Found 2 duplicate queries'' @ [CHR 0x0A] @ rest)"
proof -
  let ?q = "[occ ''1'' ''a'', occ ''2'' ''b'', occ ''3'' ''a'', occ ''4'' ''b'', occ ''5'' ''a'', occ ''6'' ''c'']"
  have c: "{n. 2 \<le> length (filter (\<lambda>q. Normalized q = n) ?q)} = {''a'', ''b''}"
    by auto
  have h1: "range_order [''c'', ''b'', ''a''] (group_queries ?q)"
    by (auto simp: range_order_def dom_group_queries)
  have h2: "range_order [''a'', ''b''] (findDuplicates [''c'', ''b'', ''a''] ?q)"
    unfolding range_order_def dom_findDuplicates [OF h1] c by simp
  have h3: "[''a'', ''b''] \<noteq> ([] :: string list)" by simp
  show ?thesis
    using header_counts_groups [OF h1 h2 h3] unfolding c by simp
qed

section \<open>The matcher\<close>

lemma ms_suffix: "t \<in> set (ms r s) \<Longrightarrow> \<exists>u. s = u @ t"
proof (induction r s arbitrary: t rule: ms.induct)
  case (1 P s)
  then show ?case by (cases s) (auto split: if_splits)
next
  case (2 s)
  then show ?case by simp
next
  case (3 s)
  then show ?case by (simp split: if_splits)
next
  case (4 r1 r2 s)
  from "4.prems" obtain m where m: "m \<in> set (ms r1 s)" and t: "t \<in> set (ms r2 m)" by auto
  from "4.IH"(1) [OF m] obtain u where u: "s = u @ m" by blast
  from "4.IH"(2) [OF m t] obtain v where "m = v @ t" by blast
  with u have "s = (u @ v) @ t" by simp
  then show ?case by blast
next
  case (5 r1 r2 s)
  then show ?case by auto
next
  case (6 r s)
  show ?case
  proof (cases "t = s")
    case True
    then show ?thesis by simp
  next
    case False
    with "6.prems" ms.simps(6) [of r s] obtain m where m: "m \<in> set (ms r s)" and l: "length m < length s"
      and t: "t \<in> set (ms (Star r) m)" by auto
    from "6.IH"(1) [OF m] obtain u where u: "s = u @ m" by blast
    from "6.IH"(2) [of m t] m l t obtain v where "m = v @ t" by auto
    with u have "s = (u @ v) @ t" by simp
    then show ?thesis by blast
  qed
next
  case (7 r s)
  show ?case
  proof (cases "t = s")
    case True
    then show ?thesis by simp
  next
    case False
    with "7.prems" ms.simps(7) [of r s] obtain m where m: "m \<in> set (ms r s)" and l: "length m < length s"
      and t: "t \<in> set (ms (LazyStar r) m)" by auto
    from "7.IH"(1) [OF m] obtain u where u: "s = u @ m" by blast
    from "7.IH"(2) [of m t] m l t obtain v where "m = v @ t" by auto
    with u have "s = (u @ v) @ t" by simp
    then show ?thesis by blast
  qed
qed

lemma first_match_suffix: "first_match r s = Some t \<Longrightarrow> \<exists>u. s = u @ t"
  by (rule ms_suffix [of t r s]) (auto simp: first_match_def split: list.splits)

lemma first_match_mem: "first_match r s = Some t \<Longrightarrow> t \<in> set (ms r s)"
  by (auto simp: first_match_def split: list.splits)

lemma set_ReplaceAllString: "set (ReplaceAllString re s repl) \<subseteq> set s \<union> set repl"
proof (induction re s repl rule: ReplaceAllString.induct)
  case (1 re repl)
  show ?case by simp
next
  case (2 re c cs repl)
  show ?case
  proof (cases "first_match re (c # cs)")
    case None
    with 2 show ?thesis by auto
  next
    case (Some t)
    from first_match_suffix [OF Some] obtain u where u: "c # cs = u @ t" by blast
    then have sub: "set t \<subseteq> set (c # cs)" by (metis set_append Un_upper2)
    show ?thesis
    proof (cases "length t < length (c # cs)")
      case True
      with 2 Some sub show ?thesis by auto
    next
      case False
      with 2 Some show ?thesis by auto
    qed
  qed
qed

section \<open>Trimming\<close>

lemma set_TrimSpace: "set (TrimSpace s) \<subseteq> set s"
proof -
  have "set (TrimRight (TrimLeft s)) \<subseteq> set (TrimLeft s)"
    unfolding TrimRight_def using set_dropWhileD [of _ is_trim_space "rev (TrimLeft s)"] by auto
  moreover have "set (TrimLeft s) \<subseteq> set s"
    unfolding TrimLeft_def using set_dropWhileD [of _ is_trim_space s] by auto
  ultimately show ?thesis by (auto simp: TrimSpace_def)
qed

lemma TrimRight_keeps_head:
  assumes "\<not> is_trim_space a"
  shows "\<exists>ys. TrimRight (a # xs) = a # ys"
proof -
  have "dropWhile is_trim_space (rev xs @ [a]) =
      (if \<forall>x\<in>set (rev xs). is_trim_space x then [a] else dropWhile is_trim_space (rev xs) @ [a])"
    using assms by (simp add: dropWhile_append)
  then have "TrimRight (a # xs) =
      (if \<forall>x\<in>set (rev xs). is_trim_space x then [a]
       else a # rev (dropWhile is_trim_space (rev xs)))"
    by (simp add: TrimRight_def)
  then show ?thesis by (cases "\<forall>x\<in>set (rev xs). is_trim_space x") simp_all
qed

lemma TrimRight_idem: "TrimRight (TrimRight s) = TrimRight s"
  by (simp add: TrimRight_def)

lemma TrimLeft_head: "TrimLeft s = a # xs \<Longrightarrow> \<not> is_trim_space a"
  unfolding TrimLeft_def by (metis hd_dropWhile list.sel(1) list.distinct(1))

lemma TrimSpace_idem: "TrimSpace (TrimSpace s) = TrimSpace s"
proof (cases "TrimLeft s")
  case Nil
  have e: "TrimRight [] = []" "TrimLeft [] = []" by (simp_all add: TrimRight_def TrimLeft_def)
  show ?thesis unfolding TrimSpace_def Nil e ..
next
  case (Cons a xs)
  from TrimRight_keeps_head [OF TrimLeft_head [OF Cons]]
  obtain ys where ys: "TrimRight (a # xs) = a # ys" by blast
  have "TrimLeft (a # ys) = a # ys"
    using TrimLeft_head [OF Cons] by (simp add: TrimLeft_def)
  then show ?thesis
    using Cons ys TrimRight_idem [of "a # xs"] by (simp add: TrimSpace_def)
qed

section \<open>findSQLQueries\<close>

lemma clean_and_validate_filter:
  "clean_and_validate result matches =
     result @ filter looks_like_sql (map TrimSpace matches)"
  by (induction matches arbitrary: result) (simp_all add: Let_def)

lemma findSQLQueries_filter:
  "findSQLQueries text = filter looks_like_sql (map TrimSpace (FindAllString sql_pattern text))"
  by (simp add: findSQLQueries_def clean_and_validate_filter)

text \<open>
  Claim C6. \<open>findSQLQueries\<close> returns the trimmed matches that pass the test of the
  loop, in order, and drops the others: every string returned is trimmed, is not empty,
  and ends with \<open>;\<close> or contains \<open>SELECT\<close>, \<open>INSERT\<close> or \<open>UPDATE\<close> once upper-cased.
\<close>

theorem findSQLQueries_accepts:
  "findSQLQueries text = filter looks_like_sql (map TrimSpace (FindAllString sql_pattern text))
   \<and> (\<forall>q \<in> set (findSQLQueries text).
        TrimSpace q = q \<and> length q > 0 \<and>
        (HasSuffix q '';'' \<or> Contains (ToUpper q) ''SELECT''
          \<or> Contains (ToUpper q) ''INSERT'' \<or> Contains (ToUpper q) ''UPDATE''))"
proof -
  have "TrimSpace q = q \<and> length q > 0 \<and>
        (HasSuffix q '';'' \<or> Contains (ToUpper q) ''SELECT''
          \<or> Contains (ToUpper q) ''INSERT'' \<or> Contains (ToUpper q) ''UPDATE'')"
    if "q \<in> set (findSQLQueries text)" for q
  proof -
    from that obtain m where "q = TrimSpace m" and "looks_like_sql q"
      unfolding findSQLQueries_filter by auto
    then show ?thesis
      unfolding looks_like_sql_def using TrimSpace_idem [of m] by simp
  qed
  then show ?thesis using findSQLQueries_filter by blast
qed

theorem findSQLQueries_accepts_witness:
  "''DELETE FROM t;'' \<in> set (findSQLQueries ''DELETE FROM t; drop table u '')
   \<and> findSQLQueries ''DELETE FROM t; drop table u '' = [''DELETE FROM t;'']
   \<and> TrimSpace ''DELETE FROM t;'' = ''DELETE FROM t;''
   \<and> length ''DELETE FROM t;'' > 0
   \<and> (HasSuffix ''DELETE FROM t;'' '';'' \<or> Contains (ToUpper ''DELETE FROM t;'') ''SELECT''
        \<or> Contains (ToUpper ''DELETE FROM t;'') ''INSERT''
        \<or> Contains (ToUpper ''DELETE FROM t;'') ''UPDATE'')"
proof -
  have v: "findSQLQueries ''DELETE FROM t; drop table u '' = [''DELETE FROM t;'']"
    by code_simp
  then have m: "''DELETE FROM t;'' \<in> set (findSQLQueries ''DELETE FROM t; drop table u '')"
    by simp
  show ?thesis
    using v m findSQLQueries_accepts [of "''DELETE FROM t; drop table u ''"] by blast
qed

section \<open>Characters of the normalized form\<close>

lemma is_upper_iff: "is_upper c \<longleftrightarrow> 65 \<le> (of_char c :: nat) \<and> (of_char c :: nat) \<le> 90"
  by (simp add: is_upper_def less_eq_char_def)

lemma is_lower_iff: "is_lower c \<longleftrightarrow> 97 \<le> (of_char c :: nat) \<and> (of_char c :: nat) \<le> 122"
  by (simp add: is_lower_def less_eq_char_def)

lemma is_digit_iff: "is_digit c \<longleftrightarrow> 48 \<le> (of_char c :: nat) \<and> (of_char c :: nat) \<le> 57"
  by (simp add: is_digit_def less_eq_char_def)

lemma of_char_lower_char:
  "(of_char (lower_char c) :: nat) = (if is_upper c then of_char c + 32 else of_char c)"
  by (simp add: lower_char_def is_upper_iff)

lemma not_upper_lower_char: "\<not> is_upper (lower_char c)"
  by (simp add: is_upper_iff of_char_lower_char)

lemma lower_char_idem: "lower_char (lower_char c) = lower_char c"
  using not_upper_lower_char [of c] by (simp add: lower_char_def [of "lower_char c"])

lemma set_ReplaceAllString_in:
  "set s \<subseteq> A \<Longrightarrow> set repl \<subseteq> A \<Longrightarrow> set (ReplaceAllString re s repl) \<subseteq> A"
  using set_ReplaceAllString [of re s repl] by blast




section \<open>Statements without a terminating semicolon\<close>

lemma FindAllString_match:
  "m \<in> set (FindAllString re s) \<Longrightarrow>
     \<exists>u s' t. s = u @ s' \<and> first_match re s' = Some t \<and> length t < length s'
       \<and> m = take (length s' - length t) s'"
proof (induction re s rule: FindAllString.induct)
  case (1 re)
  then show ?case by simp
next
  case (2 re c cs)
  show ?case
  proof (cases "first_match re (c # cs)")
    case None
    with 2 obtain u s' t where "cs = u @ s'" and r: "first_match re s' = Some t"
      "length t < length s'" "m = take (length s' - length t) s'"
      by auto
    then have "c # cs = (c # u) @ s'" by simp
    with r show ?thesis by blast
  next
    case (Some t)
    show ?thesis
    proof (cases "length t < length (c # cs)")
      case True
      from first_match_suffix [OF Some] obtain w where w: "c # cs = w @ t" by blast
      from 2 Some True
      consider "m = take (length (c # cs) - length t) (c # cs)" | "m \<in> set (FindAllString re t)"
        by auto
      then show ?thesis
      proof cases
        case 1
        have "c # cs = [] @ (c # cs)" by simp
        with Some True 1 show ?thesis by blast
      next
        case 2
        with "2.IH"(2) [OF Some True] obtain u s' t' where "t = u @ s'"
          and r: "first_match re s' = Some t'" "length t' < length s'"
          "m = take (length s' - length t') s'"
          by blast
        with w have "c # cs = (w @ u) @ s'" by simp
        with r show ?thesis by blast
      qed
    next
      case False
      with 2 Some obtain u s' t' where "cs = u @ s'" and r: "first_match re s' = Some t'"
        "length t' < length s'" "m = take (length s' - length t') s'"
        by auto
      then have "c # cs = (c # u) @ s'" by simp
      with r show ?thesis by blast
    qed
  qed
qed

lemma sql_pattern_end:
  assumes "first_match sql_pattern s = Some t"
  shows "t = [] \<or> (\<exists>w. s = w @ CHR '';'' # t)"
proof -
  from first_match_mem [OF assms]
  obtain m where m: "m \<in> set (ms sql_statement s)"
    and t: "t \<in> set (ms (Alt (Lit CHR '';'') EOT) m)"
    by (auto simp: sql_pattern_def)
  from ms_suffix [OF m] obtain w where w: "s = w @ m" by blast
  from t have "m = CHR '';'' # t \<or> (m = [] \<and> t = [])"
    by (cases m) (auto simp: Lit_def split: if_splits)
  with w show ?thesis by auto
qed

lemma TrimLeft_snoc:
  assumes "\<not> is_trim_space c"
  shows "TrimLeft (x @ [c]) = TrimLeft x @ [c]"
  using assms by (simp add: TrimLeft_def dropWhile_append)

lemma TrimRight_snoc:
  assumes "\<not> is_trim_space c"
  shows "TrimRight (x @ [c]) = x @ [c]"
  using assms by (simp add: TrimRight_def)

lemma TrimSpace_snoc:
  assumes "\<not> is_trim_space c"
  shows "TrimSpace (x @ [c]) = TrimLeft x @ [c]"
  using assms by (simp add: TrimSpace_def TrimLeft_snoc TrimRight_snoc)

lemma HasSuffix_snoc: "HasSuffix (x @ [c]) [c]"
  by (simp add: HasSuffix_def)

lemma sql_match_shape:
  assumes "m \<in> set (FindAllString sql_pattern text)"
  shows "(\<exists>u. text = u @ m) \<or> HasSuffix (TrimSpace m) '';''"
proof -
  from FindAllString_match [OF assms] obtain u s t where s: "text = u @ s"
    and f: "first_match sql_pattern s = Some t" and l: "length t < length s"
    and m: "m = take (length s - length t) s"
    by blast
  from sql_pattern_end [OF f] show ?thesis
  proof
    assume "t = []"
    with m s show ?thesis by auto
  next
    assume "\<exists>w. s = w @ CHR '';'' # t"
    then obtain w where "s = w @ CHR '';'' # t" ..
    with m have "m = w @ [CHR '';'']" by simp
    moreover have "\<not> is_trim_space CHR '';''" by (simp add: is_trim_space_def)
    ultimately have "TrimSpace m = TrimLeft w @ [CHR '';'']"
      by (simp add: TrimSpace_snoc)
    then show ?thesis using HasSuffix_snoc [of "TrimLeft w" "CHR '';''"] by simp
  qed
qed

text \<open>
  Claim C5 says that a statement returned without a terminating \<open>;\<close> is anchored at
  \<open>SELECT\<close>. The alternative \<open>(?:;|$)\<close> follows the group of all the keyword
  alternatives, so each of them can end at the end of the text: on the text
  \<open>INSERT INTO t\<close> the statement \<open>INSERT INTO t\<close> is returned.
\<close>

theorem unterminated_statement_counterexample:
  "''INSERT INTO t'' \<in> set (findSQLQueries ''INSERT INTO t'')
   \<and> \<not> HasSuffix ''INSERT INTO t'' '';''
   \<and> \<not> HasPrefix (ToUpper ''INSERT INTO t'') ''SELECT''"
  by code_simp

text \<open>
  Claim C5, amended. Whatever its keyword, a statement that \<open>findSQLQueries\<close> returns
  without a terminating \<open>;\<close> is the trimmed form of a match that runs to the end of
  the text, and its upper-cased form contains \<open>SELECT\<close>, \<open>INSERT\<close> or \<open>UPDATE\<close>.
\<close>

theorem unterminated_statement:
  assumes "q \<in> set (findSQLQueries text)" and "\<not> HasSuffix q '';''"
  shows "(\<exists>u m. text = u @ m \<and> m \<in> set (FindAllString sql_pattern text) \<and> q = TrimSpace m)
     \<and> (Contains (ToUpper q) ''SELECT'' \<or> Contains (ToUpper q) ''INSERT''
          \<or> Contains (ToUpper q) ''UPDATE'')"
proof -
  from assms(1) obtain m where m: "m \<in> set (FindAllString sql_pattern text)"
    and q: "q = TrimSpace m" and a: "looks_like_sql q"
    unfolding findSQLQueries_filter by auto
  from sql_match_shape [OF m] assms(2) q obtain u where "text = u @ m" by auto
  with m q a assms(2) show ?thesis unfolding looks_like_sql_def by blast
qed

theorem unterminated_statement_witness:
  "''drop table updates'' \<in> set (findSQLQueries ''x; drop table updates '')
   \<and> \<not> HasSuffix ''drop table updates'' '';''
   \<and> (\<exists>u m. ''x; drop table updates '' = u @ m
         \<and> m \<in> set (FindAllString sql_pattern ''x; drop table updates '')
         \<and> ''drop table updates'' = TrimSpace m)
   \<and> (Contains (ToUpper ''drop table updates'') ''SELECT''
        \<or> Contains (ToUpper ''drop table updates'') ''INSERT''
        \<or> Contains (ToUpper ''drop table updates'') ''UPDATE'')"
proof -
  have h1: "''drop table updates'' \<in> set (findSQLQueries ''x; drop table updates '')"
    by code_simp
  have h2: "\<not> HasSuffix ''drop table updates'' '';''"
    by code_simp
  show ?thesis
    using h1 h2 unterminated_statement [OF h1 h2] by blast
qed

section \<open>Splitting a text at a character that the pattern rejects\<close>

lemma concat_map_map:
  "concat (map (\<lambda>t. map f (g t)) xs) = map f (concat (map g xs))"
  by (induction xs) simp_all

lemma ms_split:
  "rejects c r \<Longrightarrow> ms r (u @ c # v) = map (\<lambda>t. t @ c # v) (ms r u)"
proof (induction r u rule: ms.induct)
  case (1 P s)
  then show ?case by (cases s) simp_all
next
  case (2 s)
  show ?case by simp
next
  case (3 s)
  then show ?case by simp
next
  case (4 r1 r2 s)
  have "ms (Cat r1 r2) (s @ c # v) = concat (map (ms r2) (map (\<lambda>t. t @ c # v) (ms r1 s)))"
    using 4 by simp
  also have "\<dots> = concat (map (\<lambda>t. ms r2 (t @ c # v)) (ms r1 s))"
    by (simp add: comp_def)
  also have "\<dots> = concat (map (\<lambda>t. map (\<lambda>t. t @ c # v) (ms r2 t)) (ms r1 s))"
    using 4 by (intro arg_cong [where f = concat] map_cong) auto
  also have "\<dots> = map (\<lambda>t. t @ c # v) (ms (Cat r1 r2) s)"
    by (simp add: concat_map_map)
  finally show ?case .
next
  case (5 r1 r2 s)
  then show ?case by simp
next
  case (6 r s)
  let ?f = "\<lambda>t. t @ c # v"
  have r: "ms r (s @ c # v) = map ?f (ms r s)" using 6 by simp
  have "filter (\<lambda>t. length t < length (s @ c # v)) (map ?f (ms r s))
      = map ?f (filter (\<lambda>t. length t < length s) (ms r s))"
    by (simp add: filter_map comp_def)
  then have "ms (Star r) (s @ c # v) =
      concat (map (\<lambda>t. ms (Star r) (t @ c # v)) (filter (\<lambda>t. length t < length s) (ms r s)))
        @ [s @ c # v]"
    by (simp add: ms.simps(6) [of r "s @ c # v"] r comp_def)
  also have "concat (map (\<lambda>t. ms (Star r) (t @ c # v)) (filter (\<lambda>t. length t < length s) (ms r s)))
      = concat (map (\<lambda>t. map ?f (ms (Star r) t)) (filter (\<lambda>t. length t < length s) (ms r s)))"
    using 6 by (intro arg_cong [where f = concat] map_cong) auto
  finally show ?case
    by (simp add: concat_map_map ms.simps(6) [of r s])
next
  case (7 r s)
  let ?f = "\<lambda>t. t @ c # v"
  have r: "ms r (s @ c # v) = map ?f (ms r s)" using 7 by simp
  have "filter (\<lambda>t. length t < length (s @ c # v)) (map ?f (ms r s))
      = map ?f (filter (\<lambda>t. length t < length s) (ms r s))"
    by (simp add: filter_map comp_def)
  then have "ms (LazyStar r) (s @ c # v) =
      (s @ c # v) #
      concat (map (\<lambda>t. ms (LazyStar r) (t @ c # v)) (filter (\<lambda>t. length t < length s) (ms r s)))"
    by (simp add: ms.simps(7) [of r "s @ c # v"] r comp_def)
  also have "concat (map (\<lambda>t. ms (LazyStar r) (t @ c # v)) (filter (\<lambda>t. length t < length s) (ms r s)))
      = concat (map (\<lambda>t. map ?f (ms (LazyStar r) t)) (filter (\<lambda>t. length t < length s) (ms r s)))"
    using 7 by (intro arg_cong [where f = concat] map_cong) auto
  finally show ?case
    by (simp add: concat_map_map ms.simps(7) [of r s])
qed

lemma first_match_split:
  "rejects c r \<Longrightarrow> first_match r (u @ c # v) = map_option (\<lambda>t. t @ c # v) (first_match r u)"
  by (simp add: first_match_def ms_split split: list.splits)

lemma first_match_Nil: "first_match r [] = Some t \<Longrightarrow> t = []"
  using first_match_suffix [of r "[]" t] by simp

lemma ReplaceAllString_split:
  assumes "rejects c re"
  shows "ReplaceAllString re (u @ c # v) repl =
     ReplaceAllString re u repl @ c # ReplaceAllString re v repl"
  using assms
proof (induction re u repl rule: ReplaceAllString.induct)
  case (1 re repl)
  then have "first_match re (c # v) = None \<or> first_match re (c # v) = Some (c # v)"
    using first_match_split [of c re "[]" v] first_match_Nil [of re]
    by (cases "first_match re []") auto
  then show ?case by auto
next
  case (2 re a cs repl)
  show ?case
  proof (cases "first_match re (a # cs)")
    case None
    then have "first_match re (a # cs @ c # v) = None"
      using first_match_split [OF "2.prems", of "a # cs" v] by simp
    with None 2 show ?thesis by simp
  next
    case (Some t)
    then have f: "first_match re (a # cs @ c # v) = Some (t @ c # v)"
      using first_match_split [OF "2.prems", of "a # cs" v] by simp
    show ?thesis
    proof (cases "length t < length (a # cs)")
      case True
      with Some f 2 show ?thesis by simp
    next
      case False
      with Some f 2 show ?thesis by simp
    qed
  qed
qed

lemma ReplaceAllString_split_Cons:
  assumes "rejects c re"
  shows "ReplaceAllString re (c # v) repl = c # ReplaceAllString re v repl"
  using ReplaceAllString_split [OF assms, of "[]" v repl] by simp

lemma ReplaceAllString_rejected_prefix:
  assumes "\<forall>c \<in> set d. rejects c re"
  shows "ReplaceAllString re (d @ v) repl = d @ ReplaceAllString re v repl"
  using assms
  by (induction d) (simp_all add: ReplaceAllString_split_Cons del: ReplaceAllString.simps)

lemma ReplaceAllString_split_list:
  assumes "\<forall>c \<in> set d. rejects c re" and "d \<noteq> []"
  shows "ReplaceAllString re (u @ d @ v) repl =
     ReplaceAllString re u repl @ d @ ReplaceAllString re v repl"
proof -
  from assms(2) obtain a d' where d: "d = a # d'" by (cases d) auto
  then have "rejects a re" and "\<forall>c \<in> set d'. rejects c re" using assms(1) by auto
  then show ?thesis
    unfolding d
    using ReplaceAllString_split [of a re u "d' @ v" repl]
      ReplaceAllString_rejected_prefix [of d' re v repl]
    by simp
qed

section \<open>Mapping the characters of a text\<close>

lemma ms_map:
  "stable_under f r \<Longrightarrow> ms r (map f s) = map (map f) (ms r s)"
proof (induction r s rule: ms.induct)
  case (1 P s)
  then show ?case by (cases s) simp_all
next
  case (2 s)
  show ?case by simp
next
  case (3 s)
  show ?case by simp
next
  case (4 r1 r2 s)
  have "ms (Cat r1 r2) (map f s) = concat (map (ms r2) (map (map f) (ms r1 s)))"
    using 4 by simp
  also have "\<dots> = concat (map (\<lambda>t. ms r2 (map f t)) (ms r1 s))"
    by (simp add: comp_def)
  also have "\<dots> = concat (map (\<lambda>t. map (map f) (ms r2 t)) (ms r1 s))"
    using 4 by (intro arg_cong [where f = concat] map_cong) auto
  also have "\<dots> = map (map f) (ms (Cat r1 r2) s)"
    by (simp add: concat_map_map)
  finally show ?case .
next
  case (5 r1 r2 s)
  then show ?case by simp
next
  case (6 r s)
  have r: "ms r (map f s) = map (map f) (ms r s)" using 6 by simp
  have "filter (\<lambda>t. length t < length (map f s)) (map (map f) (ms r s))
      = map (map f) (filter (\<lambda>t. length t < length s) (ms r s))"
    by (simp add: filter_map comp_def)
  then have "ms (Star r) (map f s) =
      concat (map (\<lambda>t. ms (Star r) (map f t)) (filter (\<lambda>t. length t < length s) (ms r s)))
        @ [map f s]"
    by (simp add: ms.simps(6) [of r "map f s"] r comp_def)
  also have "concat (map (\<lambda>t. ms (Star r) (map f t)) (filter (\<lambda>t. length t < length s) (ms r s)))
      = concat (map (\<lambda>t. map (map f) (ms (Star r) t)) (filter (\<lambda>t. length t < length s) (ms r s)))"
    using 6 by (intro arg_cong [where f = concat] map_cong) auto
  finally show ?case
    by (simp add: concat_map_map ms.simps(6) [of r s])
next
  case (7 r s)
  have r: "ms r (map f s) = map (map f) (ms r s)" using 7 by simp
  have "filter (\<lambda>t. length t < length (map f s)) (map (map f) (ms r s))
      = map (map f) (filter (\<lambda>t. length t < length s) (ms r s))"
    by (simp add: filter_map comp_def)
  then have "ms (LazyStar r) (map f s) =
      map f s #
      concat (map (\<lambda>t. ms (LazyStar r) (map f t)) (filter (\<lambda>t. length t < length s) (ms r s)))"
    by (simp add: ms.simps(7) [of r "map f s"] r comp_def)
  also have "concat (map (\<lambda>t. ms (LazyStar r) (map f t)) (filter (\<lambda>t. length t < length s) (ms r s)))
      = concat (map (\<lambda>t. map (map f) (ms (LazyStar r) t)) (filter (\<lambda>t. length t < length s) (ms r s)))"
    using 7 by (intro arg_cong [where f = concat] map_cong) auto
  finally show ?case
    by (simp add: concat_map_map ms.simps(7) [of r s])
qed

lemma first_match_map:
  "stable_under f r \<Longrightarrow> first_match r (map f s) = map_option (map f) (first_match r s)"
  by (simp add: first_match_def ms_map split: list.splits)

lemma ReplaceAllString_map:
  assumes "stable_under f re" and "map f repl = repl"
  shows "ReplaceAllString re (map f s) repl = map f (ReplaceAllString re s repl)"
  using assms
proof (induction re s repl rule: ReplaceAllString.induct)
  case (1 re repl)
  show ?case by simp
next
  case (2 re a cs repl)
  have f: "first_match re (f a # map f cs) = map_option (map f) (first_match re (a # cs))"
    using first_match_map [OF "2.prems"(1), of "a # cs"] by simp
  show ?case
  proof (cases "first_match re (a # cs)")
    case None
    with f 2 show ?thesis by simp
  next
    case (Some t)
    show ?thesis
    proof (cases "length t < length (a # cs)")
      case True
      with Some f 2 show ?thesis by simp
    next
      case False
      with Some f 2 show ?thesis by simp
    qed
  qed
qed


section \<open>The patterns of normalizeQuery\<close>

lemma ms_Star_Atom_Nil: "ms (Star (Atom P)) [] = [[]]"
  by (simp add: ms.simps(6))

lemma ms_Star_Atom_Cons:
  "ms (Star (Atom P)) (a # s) = (if P a then ms (Star (Atom P)) s @ [a # s] else [a # s])"
  by (simp add: ms.simps(6) [of "Atom P" "a # s"])

lemma hd_ms_Star_Atom:
  "\<exists>ts. ms (Star (Atom P)) s = dropWhile P s # ts"
  by (induction s) (auto simp: ms_Star_Atom_Nil ms_Star_Atom_Cons)

lemma first_match_Plus:
  "first_match (Plus (Atom P)) s =
     (case s of [] \<Rightarrow> None | c # cs \<Rightarrow> if P c then Some (dropWhile P cs) else None)"
proof (cases s)
  case Nil
  then show ?thesis by (simp add: first_match_def Plus_def)
next
  case (Cons c cs)
  obtain ts where "ms (Star (Atom P)) cs = dropWhile P cs # ts"
    using hd_ms_Star_Atom by blast
  then show ?thesis using Cons by (simp add: first_match_def Plus_def)
qed

lemma length_dropWhile_less: "length (dropWhile P cs) < length (c # cs)"
  using length_dropWhile_le [of P cs] by simp

lemma ReplaceAllString_Plus:
  "ReplaceAllString (Plus (Atom P)) (c # cs) repl =
     (if P c then repl @ ReplaceAllString (Plus (Atom P)) (dropWhile P cs) repl
      else c # ReplaceAllString (Plus (Atom P)) cs repl)"
  using length_dropWhile_less [of P cs c] by (simp add: first_match_Plus)

text \<open>A greedy run of a class, followed by a pattern that cannot start inside the class.\<close>

lemma ms_run_then:
  assumes "\<And>a s. P a \<Longrightarrow> ms r (a # s) = []"
  shows "concat (map (ms r) (ms (Star (Atom P)) s)) = ms r (dropWhile P s)"
proof (induction s)
  case Nil
  show ?case by (simp add: ms_Star_Atom_Nil)
next
  case (Cons a s)
  show ?case
  proof (cases "P a")
    case True
    with Cons assms [of a s] show ?thesis by (simp add: ms_Star_Atom_Cons)
  next
    case False
    then show ?thesis by (simp add: ms_Star_Atom_Cons)
  qed
qed

lemma first_match_around:
  assumes "\<not> re_space x"
  shows "first_match (re_around x) s =
     (case dropWhile re_space s of
        [] \<Rightarrow> None
      | c # cs \<Rightarrow> if c = x then Some (dropWhile re_space cs) else None)"
proof -
  let ?r = "Cat (Lit x) (Star (Atom re_space))"
  have "ms ?r (a # t) = []" if "re_space a" for a t
    using that assms by (auto simp: Lit_def)
  then have "concat (map (ms ?r) (ms (Star (Atom re_space)) s)) = ms ?r (dropWhile re_space s)"
    by (rule ms_run_then)
  then have m: "ms (re_around x) s = ms ?r (dropWhile re_space s)"
    by (simp add: re_around_def)
  show ?thesis
  proof (cases "dropWhile re_space s")
    case Nil
    show ?thesis unfolding first_match_def m Nil by (simp add: Lit_def)
  next
    case (Cons c cs)
    obtain ts where ts: "ms (Star (Atom re_space)) cs = dropWhile re_space cs # ts"
      using hd_ms_Star_Atom by blast
    show ?thesis unfolding first_match_def m Cons by (simp add: Lit_def ts)
  qed
qed

lemma first_match_quoted:
  "first_match (re_quoted q) s =
     (case s of
        [] \<Rightarrow> None
      | c # cs \<Rightarrow>
          if c = q \<and> q \<in> set cs then Some (tl (dropWhile (\<lambda>x. x \<noteq> q) cs)) else None)"
proof (cases s)
  case Nil
  then show ?thesis by (simp add: first_match_def re_quoted_def Lit_def)
next
  case (Cons c cs)
  have "ms (Lit q) (a # t) = []" if "a \<noteq> q" for a t
    using that by (simp add: Lit_def)
  then have run: "concat (map (ms (Lit q)) (ms (Star (Atom (\<lambda>x. x \<noteq> q))) t))
      = ms (Lit q) (dropWhile (\<lambda>x. x \<noteq> q) t)" for t
    by (rule ms_run_then)
  have "ms (Cat (Star (Atom (\<lambda>x. x \<noteq> q))) (Lit q))
      = (\<lambda>t. concat (map (ms (Lit q)) (ms (Star (Atom (\<lambda>x. x \<noteq> q))) t)))"
    by (rule ext) simp
  then have "ms (re_quoted q) (c # cs) =
      concat (map (\<lambda>t. concat (map (ms (Lit q)) (ms (Star (Atom (\<lambda>x. x \<noteq> q))) t)))
        (ms (Lit q) (c # cs)))"
    by (simp add: re_quoted_def)
  also have "\<dots> = (if c = q then ms (Lit q) (dropWhile (\<lambda>x. x \<noteq> q) cs) else [])"
    unfolding run by (simp add: Lit_def)
  finally have m: "ms (re_quoted q) (c # cs) =
      (if c = q then ms (Lit q) (dropWhile (\<lambda>x. x \<noteq> q) cs) else [])" .
  have "ms (Lit q) (dropWhile (\<lambda>x. x \<noteq> q) cs)
      = (if q \<in> set cs then [tl (dropWhile (\<lambda>x. x \<noteq> q) cs)] else [])"
  proof (cases "q \<in> set cs")
    case True
    then have "dropWhile (\<lambda>x. x \<noteq> q) cs \<noteq> []" by (auto simp: dropWhile_eq_Nil_conv)
    then obtain a as where d: "dropWhile (\<lambda>x. x \<noteq> q) cs = a # as"
      by (cases "dropWhile (\<lambda>x. x \<noteq> q) cs") auto
    then have "a = q" using hd_dropWhile [of "\<lambda>x. x \<noteq> q" cs] by auto
    with d True show ?thesis by (simp add: Lit_def)
  next
    case False
    then have d0: "dropWhile (\<lambda>x. x \<noteq> q) cs = []" by (auto simp: dropWhile_eq_Nil_conv)
    show ?thesis unfolding d0 using False by (simp add: Lit_def)
  qed
  with m show ?thesis using Cons by (simp add: first_match_def)
qed

lemma length_tl_dropWhile_less: "length (tl (dropWhile P cs)) < length (c # cs)"
  using length_dropWhile_le [of P cs] by simp

lemma ReplaceAllString_quoted:
  "ReplaceAllString (re_quoted q) (c # cs) repl =
     (if c = q \<and> q \<in> set cs
      then repl @ ReplaceAllString (re_quoted q) (tl (dropWhile (\<lambda>x. x \<noteq> q) cs)) repl
      else c # ReplaceAllString (re_quoted q) cs repl)"
  using length_tl_dropWhile_less [of "\<lambda>x. x \<noteq> q" cs c] by (simp add: first_match_quoted)

lemma ReplaceAllString_around:
  assumes "\<not> re_space x"
  shows "ReplaceAllString (re_around x) (c # cs) repl =
     (case dropWhile re_space (c # cs) of
        [] \<Rightarrow> c # ReplaceAllString (re_around x) cs repl
      | a # as \<Rightarrow>
          if a = x then repl @ ReplaceAllString (re_around x) (dropWhile re_space as) repl
          else c # ReplaceAllString (re_around x) cs repl)"
proof (cases "dropWhile re_space (c # cs)")
  case Nil
  then show ?thesis by (simp add: first_match_around [OF assms])
next
  case (Cons a as)
  have "length (a # as) \<le> length (c # cs)"
    using length_dropWhile_le [of re_space "c # cs"] Cons by simp
  moreover have "length (dropWhile re_space as) \<le> length as"
    by (rule length_dropWhile_le)
  ultimately have "length (dropWhile re_space as) < length (c # cs)" by simp
  then show ?thesis using Cons by (simp add: first_match_around [OF assms])
qed


section \<open>Runs and literals\<close>








lemma quoted_lone:
  "count_list s q \<le> 1 \<Longrightarrow> ReplaceAllString (re_quoted q) s repl = s"
proof (induction s)
  case Nil
  show ?case by simp
next
  case (Cons c cs)
  have le: "count_list cs q \<le> 1" using Cons.prems by (simp split: if_splits)
  have "\<not> (c = q \<and> q \<in> set cs)"
  proof
    assume a: "c = q \<and> q \<in> set cs"
    then have "count_list cs q = 0" using Cons.prems by simp
    then have "q \<notin> set cs" by (simp add: count_list_0_iff)
    with a show False by simp
  qed
  then have "ReplaceAllString (re_quoted q) (c # cs) repl
      = c # ReplaceAllString (re_quoted q) cs repl"
    by (simp only: ReplaceAllString_quoted if_False)
  then show ?case
    using Cons.IH [OF le] by simp
qed




section \<open>Counting a character that the pattern rejects\<close>

lemma count_list_notin: "q \<notin> set s \<Longrightarrow> count_list s q = 0"
  by (simp add: count_list_0_iff)

lemma count_ReplaceAllString:
  assumes "rejects q re" and "q \<notin> set repl"
  shows "count_list (ReplaceAllString re s repl) q = count_list s q"
proof (induction s rule: length_induct)
  case (1 s)
  show ?case
  proof (cases "q \<in> set s")
    case False
    then have "q \<notin> set (ReplaceAllString re s repl)"
      using set_ReplaceAllString [of re s repl] assms(2) by auto
    with False show ?thesis by (simp add: count_list_notin)
  next
    case True
    then obtain a b where s: "s = a @ q # b" by (meson split_list)
    then have "length a < length s" "length b < length s" by simp_all
    then have "count_list (ReplaceAllString re a repl) q = count_list a q"
      and "count_list (ReplaceAllString re b repl) q = count_list b q"
      using 1 by blast+
    then show ?thesis
      unfolding s by (simp add: ReplaceAllString_split [OF assms(1)])
  qed
qed

section \<open>Trimming around a character that is not white space\<close>


lemma TrimRight_split:
  "\<not> is_trim_space q \<Longrightarrow> TrimRight (u @ q # v) = u @ q # TrimRight v"
  by (simp add: TrimRight_def dropWhile_append)


lemma count_list_dropWhile:
  "\<not> P q \<Longrightarrow> count_list (dropWhile P s) q = count_list s q"
  by (induction s) auto

lemma count_TrimLeft: "\<not> is_trim_space q \<Longrightarrow> count_list (TrimLeft u) q = count_list u q"
  by (simp add: TrimLeft_def count_list_dropWhile)

lemma count_TrimRight: "\<not> is_trim_space q \<Longrightarrow> count_list (TrimRight u) q = count_list u q"
proof -
  assume a: "\<not> is_trim_space q"
  have "count_list (TrimRight u) q = count_list (dropWhile is_trim_space (rev u)) q"
    by (simp add: TrimRight_def)
  also have "\<dots> = count_list (rev u) q" using a by (rule count_list_dropWhile)
  finally show ?thesis by simp
qed

lemma set_TrimLeft: "set (TrimLeft s) \<subseteq> set s"
  unfolding TrimLeft_def using set_dropWhileD [of _ is_trim_space s] by auto

lemma set_TrimRight: "set (TrimRight s) \<subseteq> set s"
  unfolding TrimRight_def using set_dropWhileD [of _ is_trim_space "rev s"] by auto

lemma TrimSpace_map:
  assumes "\<And>c. is_trim_space (f c) = is_trim_space c"
  shows "TrimSpace (map f s) = map f (TrimSpace s)"
proof -
  have c: "is_trim_space \<circ> f = is_trim_space" using assms by auto
  have l: "TrimLeft (map f t) = map f (TrimLeft t)" for t
    by (simp add: TrimLeft_def dropWhile_map c)
  have r: "TrimRight (map f t) = map f (TrimRight t)" for t
    by (simp add: TrimRight_def rev_map dropWhile_map c)
  show ?thesis by (simp add: TrimSpace_def l r)
qed

lemma TrimLeft_Cons_space: "is_trim_space c \<Longrightarrow> TrimLeft (c # s) = TrimLeft s"
  by (simp add: TrimLeft_def)

lemma TrimRight_Cons:
  "TrimRight (c # s) =
     (if TrimRight s = [] then (if is_trim_space c then [] else [c]) else c # TrimRight s)"
  by (auto simp: TrimRight_def dropWhile_append)

lemma TrimRight_append_nonempty:
  "TrimRight z \<noteq> [] \<Longrightarrow> TrimRight (a @ z) = a @ TrimRight z"
  by (auto simp: TrimRight_def dropWhile_append)



section \<open>The steps of normalizeQuery\<close>

lemma normalizeQuery_steps:
  "normalizeQuery x = parens (quoted (CHR 0x22) (quoted (CHR 0x27) (numbers (front x))))"
  by (simp add: normalizeQuery_def replacements_def squeeze_def spacing_def numbers_def
      quoted_def parens_def front_def)

lemma re_space_trim: "re_space c \<Longrightarrow> is_trim_space c"
  by (auto simp: re_space_def is_trim_space_def)

lemma inert_not_space: "inert q \<Longrightarrow> \<not> re_space q"
  using re_space_trim by (auto simp: inert_def)


lemma mark_quotes: "mark (CHR 0x27)" "mark (CHR 0x22)"
  by (simp_all add: mark_def inert_def is_digit_iff is_upper_iff is_lower_iff is_trim_space_def)


lemma is_lower_lower_char: "is_upper c \<Longrightarrow> is_lower (lower_char c)"
  by (simp add: is_lower_iff of_char_lower_char) (simp add: is_upper_iff)

lemma lower_char_eq_mark:
  assumes "mark q"
  shows "lower_char c = q \<longleftrightarrow> c = q"
proof (cases "is_upper c")
  case True
  then have "is_lower (lower_char c)" by (rule is_lower_lower_char)
  then have "lower_char c \<noteq> q" and "c \<noteq> q"
    using assms True by (auto simp: mark_def inert_def)
  then show ?thesis by simp
next
  case False
  then show ?thesis by (simp add: lower_char_def)
qed

lemma squeeze_Nil: "squeeze [] = []"
  by (simp add: squeeze_def)


lemma rejects_whitespace: "\<not> re_space q \<Longrightarrow> rejects q re_whitespace"
  by (simp add: re_whitespace_def Plus_def)

lemma rejects_around: "\<not> re_space q \<Longrightarrow> q \<noteq> x \<Longrightarrow> rejects q (re_around x)"
  by (simp add: re_around_def Lit_def)

lemma rejects_Plus: "\<not> P q \<Longrightarrow> rejects q (Plus (Atom P))"
  by (simp add: Plus_def)










section \<open>What a mark does not meet\<close>

lemma set_spacing: "set (spacing s) \<subseteq> set s \<union> set '' =,''"
proof -
  have "set (spacing s) \<subseteq> set s \<union> set '' =,''"
    unfolding spacing_def by (intro set_ReplaceAllString_in) auto
  then show ?thesis .
qed

lemma set_squeeze: "set (squeeze s) \<subseteq> set s \<union> set '' ''"
  unfolding squeeze_def by (rule set_ReplaceAllString)

lemma set_numbers: "set (numbers s) \<subseteq> set s \<union> set ''N''"
  unfolding numbers_def by (rule set_ReplaceAllString)

lemma mark_not_in:
  assumes "mark q"
  shows "q \<notin> set '' =,''" and "q \<noteq> CHR ''N''" and "\<not> re_space q" and "\<not> is_trim_space q"
    and "inert q" and "\<not> is_digit q"
proof -
  show i: "inert q" and "\<not> is_digit q"
    using assms by (simp_all add: mark_def)
  show t: "\<not> is_trim_space q"
    using i by (simp add: inert_def)
  show "\<not> re_space q"
    using i by (rule inert_not_space)
  have "is_trim_space CHR '' ''"
    by (simp add: is_trim_space_def)
  then have "q \<noteq> CHR '' ''"
    using t by blast
  moreover have "q \<noteq> CHR ''=''" and "q \<noteq> CHR '',''"
    using i by (simp_all add: inert_def)
  ultimately show "q \<notin> set '' =,''"
    by simp
  have "is_upper CHR ''N''"
    by (simp add: is_upper_iff)
  moreover have "\<not> is_upper q"
    using i by (simp add: inert_def)
  ultimately show "q \<noteq> CHR ''N''"
    by blast
qed

lemma mark_notin_ToLower:
  assumes "mark q" and "q \<notin> set s"
  shows "q \<notin> set (ToLower s)"
proof
  assume "q \<in> set (ToLower s)"
  then obtain c where "c \<in> set s" and "lower_char c = q" by (auto simp: ToLower_def)
  then show False using assms lower_char_eq_mark [OF assms(1), of c] by simp
qed


lemma mark_notin_front:
  assumes "mark q" and "q \<notin> set s"
  shows "q \<notin> set (numbers (front s))"
proof -
  have "q \<notin> set (squeeze s)"
    using set_squeeze [of s] assms mark_not_in(1) [OF assms(1)] by auto
  then have "q \<notin> set (TrimSpace (squeeze s))"
    using set_TrimSpace by blast
  then have "q \<notin> set (ToLower (TrimSpace (squeeze s)))"
    by (rule mark_notin_ToLower [OF assms(1)])
  then have "q \<notin> set (front s)"
    unfolding front_def
    using set_spacing [of "ToLower (TrimSpace (squeeze s))"] mark_not_in(1) [OF assms(1)]
    by auto
  then show ?thesis
    using set_numbers [of "front s"] mark_not_in(2) [OF assms(1)] by auto
qed

lemma count_ToLower: "mark q \<Longrightarrow> count_list (ToLower s) q = count_list s q"
  by (induction s) (simp_all add: ToLower_def lower_char_eq_mark)

lemma count_spacing:
  assumes "mark q"
  shows "count_list (spacing s) q = count_list s q"
proof -
  note m = mark_not_in [OF assms]
  have "q \<noteq> CHR ''=''" "q \<noteq> CHR '',''" "q \<noteq> CHR '' ''"
    using m(1) by auto
  then show ?thesis
    unfolding spacing_def
    by (simp add: count_ReplaceAllString rejects_around rejects_Plus m(3))
qed



section \<open>Letter case\<close>

lemma re_space_lower_char: "re_space (lower_char c) = re_space c"
proof (cases "is_upper c")
  case True
  then have "is_lower (lower_char c)" by (rule is_lower_lower_char)
  then have "\<not> re_space (lower_char c)" by (auto simp: re_space_def is_lower_iff)
  moreover have "\<not> re_space c" using True by (auto simp: re_space_def is_upper_iff)
  ultimately show ?thesis by simp
next
  case False
  then show ?thesis by (simp add: lower_char_def)
qed

lemma is_trim_space_lower_char: "is_trim_space (lower_char c) = is_trim_space c"
proof (cases "is_upper c")
  case True
  then have "is_lower (lower_char c)" by (rule is_lower_lower_char)
  then have "\<not> is_trim_space (lower_char c)" by (auto simp: is_trim_space_def is_lower_iff)
  moreover have "\<not> is_trim_space c" using True by (auto simp: is_trim_space_def is_upper_iff)
  ultimately show ?thesis by simp
next
  case False
  then show ?thesis by (simp add: lower_char_def)
qed

lemma ToLower_TrimSpace_squeeze:
  "ToLower (TrimSpace (squeeze x)) = TrimSpace (squeeze (ToLower x))"
proof -
  have "stable_under lower_char re_whitespace"
    by (simp add: re_whitespace_def Plus_def re_space_lower_char)
  moreover have "map lower_char '' '' = '' ''"
    by (simp add: lower_char_def is_upper_iff)
  ultimately have "squeeze (map lower_char x) = map lower_char (squeeze x)"
    unfolding squeeze_def by (rule ReplaceAllString_map)
  then show ?thesis
    by (simp add: ToLower_def TrimSpace_map is_trim_space_lower_char)
qed


section \<open>White space\<close>

lemma list_all_iff_ball: "list_all P xs \<longleftrightarrow> (\<forall>x \<in> set xs. P x)"
  by (simp add: list_all_iff)

lemma squeeze_Cons:
  "squeeze (c # cs) =
     (if re_space c then CHR '' '' # squeeze (dropWhile re_space cs) else c # squeeze cs)"
  unfolding squeeze_def re_whitespace_def
  by (simp add: ReplaceAllString_Plus del: ReplaceAllString.simps)





lemma TrimRight_Nil: "TrimRight [] = []"
  by (simp add: TrimRight_def)



section \<open>Numbers and literals\<close>




section \<open>Double quotes outside the single-quoted literals\<close>










lemma mark_not_S: "mark q \<Longrightarrow> q \<noteq> CHR ''S''"
proof
  assume "mark q" and "q = CHR ''S''"
  then have "\<not> is_upper CHR ''S''" by (simp add: mark_def inert_def)
  then show False by (simp add: is_upper_iff)
qed





section \<open>Statements of the same shape\<close>



section \<open>Equivalent statements\<close>




section \<open>Texts as tokens and gaps\<close>

lemma blanks_simps [simp]: "blanks 0 = []" "blanks (Suc n) = CHR '' '' # blanks n"
  by (simp_all add: blanks_def)

lemma blanks_add: "blanks (a + b) = blanks a @ blanks b"
  by (simp add: blanks_def replicate_add)

lemma rend_add: "rend (a + b) ts = blanks a @ rend b ts"
  by (cases ts) (auto simp: blanks_add)

lemma re_space_blank: "re_space CHR '' ''"
  by (simp add: re_space_def)

lemma dropWhile_blanks: "\<not> re_space c \<Longrightarrow> dropWhile re_space (blanks g @ c # s) = c # s"
  by (induction g) (simp_all add: re_space_blank)

lemma dropWhile_blanks_Nil: "dropWhile re_space (blanks g) = []"
  by (induction g) (simp_all add: re_space_blank)

lemma dropWhile_rend: "tokens_ok ts \<Longrightarrow> dropWhile re_space (rend g ts) = rend 0 ts"
  by (cases ts) (auto simp: tokens_ok_def dropWhile_blanks dropWhile_blanks_Nil)

lemma next_token_rest_gaps: "next_token (rest_gaps \<gamma> ts) = next_token ts"
  by (cases ts) (auto simp: next_token_def)

lemma rest_gaps_then:
  "rest_gaps \<gamma>2 (rest_gaps \<gamma>1 ts) = rest_gaps (then_rule \<gamma>1 \<gamma>2) ts"
  by (induction ts) (auto simp: then_rule_def next_token_rest_gaps)

lemma regap_then: "regap \<gamma>2 (regap \<gamma>1 gt) = regap (then_rule \<gamma>1 \<gamma>2) gt"
  by (simp add: regap_def rest_gaps_then next_token_rest_gaps then_rule_def)

lemma tokens_ok_rest_gaps: "tokens_ok (rest_gaps \<gamma> ts) = tokens_ok ts"
  by (induction ts) (auto simp: tokens_ok_def)

lemma tokens_ok_regap: "tokens_ok (snd (regap \<gamma> gt)) = tokens_ok (snd gt)"
  by (simp add: regap_def tokens_ok_rest_gaps)

section \<open>The replacements on tokens and gaps\<close>

lemma around_no_match:
  "x \<notin> set s \<Longrightarrow> \<not> re_space x \<Longrightarrow> ReplaceAllString (re_around x) s repl = s"
proof (induction s)
  case Nil
  show ?case by simp
next
  case (Cons c s)
  have "a \<noteq> x" if "dropWhile re_space (c # s) = a # as" for a as
  proof -
    have "a \<in> set (dropWhile re_space (c # s))" using that by simp
    then have "a \<in> set (c # s)" by (rule set_dropWhileD)
    then show ?thesis using Cons.prems(1) by auto
  qed
  then show ?case
    using Cons
    by (cases "dropWhile re_space (c # s)")
      (simp_all add: ReplaceAllString_around [OF Cons.prems(2)] del: ReplaceAllString.simps)
qed

lemma around_blanks:
  "\<not> re_space x \<Longrightarrow> ReplaceAllString (re_around x) (blanks g) repl = blanks g"
  by (rule around_no_match) (auto simp: blanks_def re_space_blank)

lemma around_match:
  assumes "\<not> re_space x"
  shows "ReplaceAllString (re_around x) (blanks g @ x # s) repl
       = repl @ ReplaceAllString (re_around x) (dropWhile re_space s) repl"
proof -
  have d: "dropWhile re_space (blanks g @ x # s) = x # s"
    using assms by (rule dropWhile_blanks)
  obtain c cs where c: "blanks g @ x # s = c # cs" by (cases "blanks g @ x # s") auto
  show ?thesis
    unfolding c ReplaceAllString_around [OF assms] using d c by simp
qed

lemma around_regap:
  assumes x: "\<not> re_space x" and ok: "tokens_ok ts"
  shows "ReplaceAllString (re_around x) (rend g ts) (blanks a @ x # blanks b)
       = rendp (regap (around_rule x a b) (g, ts))"
  using ok
proof (induction ts arbitrary: g)
  case Nil
  show ?case
    by (simp add: around_blanks [OF x] rendp_def regap_def next_token_def around_rule_def)
next
  case (Cons t ts)
  obtain c g' where t: "t = (c, g')" by (cases t)
  have c: "\<not> re_space c" and ok': "tokens_ok ts"
    using Cons.prems t by (simp_all add: tokens_ok_def)
  let ?R = "\<lambda>s. ReplaceAllString (re_around x) s (blanks a @ x # blanks b)"
  show ?case
  proof (cases "c = x")
    case False
    have "?R (rend g (t # ts)) = ?R (blanks g) @ c # ?R (rend g' ts)"
      unfolding t using c False
      by (simp add: ReplaceAllString_split rejects_around del: ReplaceAllString.simps)
    also have "\<dots> = blanks g @ c # rendp (regap (around_rule x a b) (g', ts))"
      by (simp add: around_blanks [OF x] Cons.IH [OF ok'])
    also have "\<dots> = rendp (regap (around_rule x a b) (g, t # ts))"
      unfolding t using False
      by (simp add: rendp_def regap_def next_token_def around_rule_def)
    finally show ?thesis .
  next
    case True
    have "?R (rend g (t # ts)) = (blanks a @ x # blanks b) @ ?R (dropWhile re_space (rend g' ts))"
      unfolding t True by (simp add: around_match [OF x] del: ReplaceAllString.simps)
    also have "\<dots> = (blanks a @ x # blanks b) @ rendp (regap (around_rule x a b) (0, ts))"
      by (simp add: dropWhile_rend [OF ok'] Cons.IH [OF ok'])
    also have "\<dots> = rendp (regap (around_rule x a b) (g, t # ts))"
      unfolding t True
      by (simp add: rendp_def regap_def next_token_def around_rule_def rend_add)
    finally show ?thesis .
  qed
qed

lemma squeeze_blanks:
  "ReplaceAllString (Plus (Atom re_space)) (blanks g) '' '' = blanks (if g = 0 then 0 else 1)"
proof (cases g)
  case 0
  then show ?thesis by simp
next
  case (Suc k)
  then show ?thesis
    by (simp add: ReplaceAllString_Plus re_space_blank dropWhile_blanks_Nil
        del: ReplaceAllString.simps(2))
qed

lemma squeeze_regap:
  assumes "tokens_ok ts"
  shows "ReplaceAllString (Plus (Atom re_space)) (rend g ts) '' ''
       = rendp (regap squeeze_rule (g, ts))"
  using assms
proof (induction ts arbitrary: g)
  case Nil
  show ?case
    by (simp add: squeeze_blanks rendp_def regap_def squeeze_rule_def del: ReplaceAllString.simps)
next
  case (Cons t ts)
  obtain c g' where t: "t = (c, g')" by (cases t)
  have c: "\<not> re_space c" and ok': "tokens_ok ts"
    using Cons.prems t by (simp_all add: tokens_ok_def)
  let ?R = "\<lambda>s. ReplaceAllString (Plus (Atom re_space)) s '' ''"
  have "?R (rend g (t # ts)) = ?R (blanks g) @ c # ?R (rend g' ts)"
    unfolding t using c
    by (simp add: ReplaceAllString_split rejects_Plus del: ReplaceAllString.simps)
  also have "\<dots> = blanks (if g = 0 then 0 else 1) @ c # rendp (regap squeeze_rule (g', ts))"
    by (simp only: squeeze_blanks Cons.IH [OF ok'])
  also have "\<dots> = rendp (regap squeeze_rule (g, t # ts))"
    unfolding t by (simp add: rendp_def regap_def squeeze_rule_def)
  finally show ?case .
qed


section \<open>The rules of the steps\<close>

lemma then_rule_assoc:
  "then_rule (then_rule \<gamma>1 \<gamma>2) \<gamma>3 = then_rule \<gamma>1 (then_rule \<gamma>2 \<gamma>3)"
  by (intro ext) (simp add: then_rule_def)

lemma around_regap_pair:
  assumes "\<not> re_space x" and "tokens_ok (snd gt)"
  shows "ReplaceAllString (re_around x) (rendp gt) (blanks a @ x # blanks b)
       = rendp (regap (around_rule x a b) gt)"
  using around_regap [OF assms, of "fst gt" a b] by (simp add: rendp_def)

lemma squeeze_regap_pair:
  assumes "tokens_ok (snd gt)"
  shows "ReplaceAllString (Plus (Atom re_space)) (rendp gt) '' '' = rendp (regap squeeze_rule gt)"
  using squeeze_regap [OF assms, of "fst gt"] by (simp add: rendp_def)

lemma special_not_space:
  "\<not> re_space CHR ''=''" "\<not> re_space CHR '',''" "\<not> re_space CHR ''(''" "\<not> re_space CHR '')''"
  by (simp_all add: re_space_def)

lemma spacing_regap:
  assumes "tokens_ok (snd gt)"
  shows "spacing (rendp gt) = rendp (regap spacing_rule gt)"
proof -
  have 1: "ReplaceAllString (re_around CHR ''='') (rendp gt) '' = ''
      = rendp (regap (around_rule CHR ''='' 1 1) gt)"
    using around_regap_pair [OF special_not_space(1) assms, of "Suc 0" "Suc 0"] by simp
  have ok1: "tokens_ok (snd (regap (around_rule CHR ''='' 1 1) gt))"
    using assms by (simp add: tokens_ok_regap)
  have 2: "ReplaceAllString (re_around CHR '','') (rendp (regap (around_rule CHR ''='' 1 1) gt)) '', ''
      = rendp (regap (around_rule CHR '','' 0 1) (regap (around_rule CHR ''='' 1 1) gt))"
    using around_regap_pair [OF special_not_space(2) ok1, of 0 "Suc 0"] by simp
  have ok2: "tokens_ok (snd (regap (around_rule CHR '','' 0 1) (regap (around_rule CHR ''='' 1 1) gt)))"
    using ok1 by (simp add: tokens_ok_regap)
  have 3: "ReplaceAllString (Plus (Atom re_space))
        (rendp (regap (around_rule CHR '','' 0 1) (regap (around_rule CHR ''='' 1 1) gt))) '' ''
      = rendp (regap squeeze_rule
          (regap (around_rule CHR '','' 0 1) (regap (around_rule CHR ''='' 1 1) gt)))"
    by (rule squeeze_regap_pair [OF ok2])
  show ?thesis
    unfolding spacing_def 1 2 3 by (simp add: regap_then then_rule_assoc spacing_rule_def)
qed

lemma parens_regap:
  assumes "tokens_ok (snd gt)"
  shows "parens (rendp gt) = rendp (regap parens_rule gt)"
proof -
  have 1: "ReplaceAllString (re_around CHR ''('') (rendp gt) '' ( ''
      = rendp (regap (around_rule CHR ''('' 1 1) gt)"
    using around_regap_pair [OF special_not_space(3) assms, of "Suc 0" "Suc 0"] by simp
  have ok1: "tokens_ok (snd (regap (around_rule CHR ''('' 1 1) gt))"
    using assms by (simp add: tokens_ok_regap)
  have 2: "ReplaceAllString (re_around CHR '')'') (rendp (regap (around_rule CHR ''('' 1 1) gt)) '' ) ''
      = rendp (regap (around_rule CHR '')'' 1 1) (regap (around_rule CHR ''('' 1 1) gt))"
    using around_regap_pair [OF special_not_space(4) ok1, of "Suc 0" "Suc 0"] by simp
  show ?thesis
    unfolding parens_def 1 2 by (simp add: regap_then parens_rule_def)
qed

lemma squeeze_regap_text:
  assumes "tokens_ok (snd gt)"
  shows "squeeze (rendp gt) = rendp (regap squeeze_rule gt)"
  unfolding squeeze_def re_whitespace_def by (rule squeeze_regap_pair [OF assms])

section \<open>Trimming tokens and gaps\<close>

lemma is_trim_space_blank: "is_trim_space CHR '' ''"
  by (simp add: is_trim_space_def)

lemma TrimRight_blanks: "TrimRight (blanks g) = []"
  by (induction g) (simp_all add: TrimRight_Nil TrimRight_Cons is_trim_space_blank)

lemma TrimLeft_blanks: "TrimLeft (blanks g @ s) = TrimLeft s"
  by (induction g) (simp_all add: TrimLeft_def is_trim_space_blank)

lemma rend_not_Nil: "ts \<noteq> [] \<Longrightarrow> rend g ts \<noteq> []"
  by (cases ts) auto

lemma rest_gaps_Nil_iff: "rest_gaps \<gamma> ts = [] \<longleftrightarrow> ts = []"
  by (cases ts) auto

lemma TrimRight_rend:
  "ts \<noteq> [] \<Longrightarrow> \<not> is_trim_space (fst (last ts)) \<Longrightarrow>
     TrimRight (rend g ts) = rend g (rest_gaps trim_rule ts)"
proof (induction ts arbitrary: g)
  case Nil
  then show ?case by simp
next
  case (Cons t ts)
  obtain c g' where t: "t = (c, g')" by (cases t)
  show ?case
  proof (cases "ts = []")
    case True
    then have "\<not> is_trim_space c" using Cons.prems t by simp
    then show ?thesis
      unfolding t True
      by (simp add: TrimRight_split TrimRight_blanks trim_rule_def next_token_def)
  next
    case False
    then have "\<not> is_trim_space (fst (last ts))" using Cons.prems by simp
    then have ih: "TrimRight (rend g' ts) = rend g' (rest_gaps trim_rule ts)"
      using Cons.IH False by blast
    then have "TrimRight (rend g' ts) \<noteq> []"
      using False by (simp add: rend_not_Nil rest_gaps_Nil_iff)
    then have "TrimRight ((blanks g @ [c]) @ rend g' ts) = (blanks g @ [c]) @ TrimRight (rend g' ts)"
      by (rule TrimRight_append_nonempty)
    moreover have "next_token ts \<noteq> None"
      using False by (cases ts) (auto simp: next_token_def)
    then have "rest_gaps trim_rule ((c, g') # ts) = (c, g') # rest_gaps trim_rule ts"
      by (auto simp: trim_rule_def)
    ultimately show ?thesis
      unfolding t using ih by simp
  qed
qed

lemma TrimSpace_regap:
  assumes "edges_ok (snd gt)"
  shows "TrimSpace (rendp gt) = rendp (regap trim_rule gt)"
proof (cases "snd gt")
  case Nil
  have "TrimLeft (blanks (fst gt) @ []) = TrimLeft []" by (rule TrimLeft_blanks)
  then have "TrimSpace (blanks (fst gt)) = []"
    by (simp add: TrimSpace_def TrimLeft_def [of "[]"] TrimRight_Nil)
  then show ?thesis
    by (simp add: rendp_def regap_def trim_rule_def next_token_def Nil)
next
  case (Cons t ts)
  obtain c g' where t: "t = (c, g')" by (cases t)
  have c: "\<not> is_trim_space c" and l: "\<not> is_trim_space (fst (last (t # ts)))"
    using assms Cons t by (simp_all add: edges_ok_def)
  have "TrimLeft (rend (fst gt) (t # ts)) = rend 0 (t # ts)"
    unfolding t using c by (simp add: TrimLeft_blanks) (simp add: TrimLeft_def)
  then have "TrimSpace (rendp gt) = rend 0 (rest_gaps trim_rule (t # ts))"
    unfolding TrimSpace_def rendp_def Cons using TrimRight_rend [OF _ l, of 0] by simp
  then show ?thesis
    by (simp add: rendp_def regap_def Cons trim_rule_def)
qed

section \<open>The second pass leaves the gaps as they are\<close>

lemma second_rule_first: "second_rule None 0 n = normal_rule None 0 n"
  by (simp add: second_rule_def normal_rule_def spacing_rule_def parens_rule_def then_rule_def
      around_rule_def squeeze_rule_def trim_rule_def)

lemma second_rule_rest:
  "(n = None \<longrightarrow> g = 0) \<Longrightarrow> second_rule (Some c) g n = normal_rule (Some c) g n"
  by (cases n)
    (simp_all add: second_rule_def normal_rule_def spacing_rule_def parens_rule_def then_rule_def
      around_rule_def squeeze_rule_def trim_rule_def)

lemma rest_gaps_cong:
  assumes "\<And>c g n. (n = None \<longrightarrow> g = 0) \<Longrightarrow> \<gamma> (Some c) g n = \<gamma>' (Some c) g n"
    and "ts = [] \<or> snd (last ts) = 0"
  shows "rest_gaps \<gamma> ts = rest_gaps \<gamma>' ts"
  using assms(2)
proof (induction ts)
  case Nil
  show ?case by simp
next
  case (Cons t ts)
  obtain c g where t: "t = (c, g)" by (cases t)
  have "next_token ts = None \<longrightarrow> g = 0"
    using Cons.prems t by (cases ts) (auto simp: next_token_def)
  then have "\<gamma> (Some c) g (next_token ts) = \<gamma>' (Some c) g (next_token ts)"
    by (rule assms(1))
  moreover have "rest_gaps \<gamma> ts = rest_gaps \<gamma>' ts"
    using Cons by (cases ts) auto
  ultimately show ?case unfolding t by simp
qed

lemma regap_second:
  assumes "tight gt"
  shows "regap second_rule gt = regap normal_rule gt"
proof -
  have "rest_gaps second_rule (snd gt) = rest_gaps normal_rule (snd gt)"
    using assms by (intro rest_gaps_cong second_rule_rest) (simp_all add: tight_def)
  moreover have "fst gt = 0" using assms by (simp add: tight_def)
  ultimately show ?thesis by (simp add: regap_def second_rule_first)
qed


section \<open>A trimmed text as tokens and gaps\<close>

lemma squeeze_only_blanks:
  "c \<in> set (squeeze s) \<Longrightarrow> re_space c \<Longrightarrow> c = CHR '' ''"
proof (induction s rule: length_induct)
  case (1 s)
  show ?case
  proof (cases s)
    case Nil
    with "1.prems" show ?thesis by (simp add: squeeze_Nil)
  next
    case (Cons a as)
    show ?thesis
    proof (cases "re_space a")
      case True
      then have "squeeze s = CHR '' '' # squeeze (dropWhile re_space as)"
        unfolding Cons by (simp add: squeeze_Cons)
      moreover have "length (dropWhile re_space as) < length s"
        unfolding Cons by (rule length_dropWhile_less)
      ultimately show ?thesis using 1 by auto
    next
      case False
      then have "squeeze s = a # squeeze as"
        unfolding Cons by (simp add: squeeze_Cons)
      then show ?thesis using 1 False Cons by auto
    qed
  qed
qed

lemma exists_rend:
  "\<forall>c \<in> set s. re_space c \<longrightarrow> c = CHR '' '' \<Longrightarrow> \<exists>g ts. s = rend g ts \<and> tokens_ok ts"
proof (induction s)
  case Nil
  have "[] = rend 0 [] \<and> tokens_ok []" by (simp add: tokens_ok_def)
  then show ?case by blast
next
  case (Cons a s)
  then obtain g ts where s: "s = rend g ts" and ok: "tokens_ok ts" by auto
  show ?case
  proof (cases "re_space a")
    case True
    then have "a = CHR '' ''" using Cons.prems by simp
    then have "a # s = rend (Suc g) ts" using s by (cases ts) auto
    with ok show ?thesis by blast
  next
    case False
    then have "a # s = rend 0 ((a, g) # ts) \<and> tokens_ok ((a, g) # ts)"
      using s ok by (simp add: tokens_ok_def)
    then show ?thesis by blast
  qed
qed

lemma TrimSpace_hd: "TrimSpace s = a # r \<Longrightarrow> \<not> is_trim_space a"
proof (cases "TrimLeft s")
  case Nil
  assume "TrimSpace s = a # r"
  with Nil show ?thesis by (simp add: TrimSpace_def TrimRight_Nil)
next
  case (Cons b xs)
  assume a: "TrimSpace s = a # r"
  have b: "\<not> is_trim_space b" using Cons by (rule TrimLeft_head)
  then obtain ys where "TrimRight (b # xs) = b # ys"
    using TrimRight_keeps_head by blast
  with a Cons b show ?thesis by (simp add: TrimSpace_def)
qed

lemma TrimRight_last: "TrimRight s \<noteq> [] \<Longrightarrow> \<not> is_trim_space (last (TrimRight s))"
proof -
  assume ne: "TrimRight s \<noteq> []"
  then have d: "dropWhile is_trim_space (rev s) \<noteq> []" by (simp add: TrimRight_def)
  then have "\<not> is_trim_space (hd (dropWhile is_trim_space (rev s)))" by (rule hd_dropWhile)
  moreover have "last (TrimRight s) = hd (dropWhile is_trim_space (rev s))"
    unfolding TrimRight_def using d by (simp add: last_rev)
  ultimately show ?thesis by simp
qed

lemma TrimSpace_last: "TrimSpace s \<noteq> [] \<Longrightarrow> \<not> is_trim_space (last (TrimSpace s))"
  unfolding TrimSpace_def by (rule TrimRight_last)

lemma last_rend:
  "ts \<noteq> [] \<Longrightarrow> last (rend g ts) = (if snd (last ts) = 0 then fst (last ts) else CHR '' '')"
proof (induction ts arbitrary: g)
  case Nil
  then show ?case by simp
next
  case (Cons t ts)
  obtain c g' where t: "t = (c, g')" by (cases t)
  show ?case
  proof (cases "ts = []")
    case True
    show ?thesis unfolding t True by (cases g') (simp_all add: blanks_def)
  next
    case False
    then have "rend g' ts \<noteq> []" by (rule rend_not_Nil)
    then have "last (rend g (t # ts)) = last (rend g' ts)" unfolding t by simp
    then show ?thesis using Cons.IH [OF False] False by simp
  qed
qed

lemma tight_trimmed:
  assumes "rend g ts = TrimSpace z"
  shows "tight (g, ts)"
proof -
  have g: "g = 0"
  proof (rule ccontr)
    assume "g \<noteq> 0"
    then obtain k where "g = Suc k" by (cases g) auto
    then obtain r where "rend g ts = CHR '' '' # r" by (cases ts) auto
    then have "\<not> is_trim_space CHR '' ''" using assms TrimSpace_hd [of z] by simp
    then show False by (simp add: is_trim_space_blank)
  qed
  show ?thesis
  proof (cases ts)
    case Nil
    with g show ?thesis by (simp add: tight_def edges_ok_def)
  next
    case (Cons t ts')
    obtain c g' where t: "t = (c, g')" by (cases t)
    have "TrimSpace z = c # rend g' ts'" using assms g Cons t by simp
    then have c: "\<not> is_trim_space c" by (rule TrimSpace_hd)
    have ne: "ts \<noteq> []" using Cons by simp
    then have "TrimSpace z \<noteq> []" using assms rend_not_Nil by metis
    then have "\<not> is_trim_space (last (rend g ts))"
      using TrimSpace_last [of z] assms by simp
    then have "snd (last ts) = 0 \<and> \<not> is_trim_space (fst (last ts))"
      unfolding last_rend [OF ne] using is_trim_space_blank by (auto split: if_splits)
    then show ?thesis using g c Cons t by (simp add: tight_def edges_ok_def)
  qed
qed

lemma edges_ok_regap: "edges_ok (snd (regap \<gamma> gt)) = edges_ok (snd gt)"
proof -
  have "fst (hd (rest_gaps \<gamma> ts)) = fst (hd ts)" if "ts \<noteq> []" for ts
    using that by (cases ts) auto
  moreover have "fst (last (rest_gaps \<gamma> ts)) = fst (last ts)" if "ts \<noteq> []" for ts
    using that by (induction ts) (auto simp: rest_gaps_Nil_iff)
  ultimately show ?thesis
    by (auto simp: edges_ok_def regap_def rest_gaps_Nil_iff)
qed

section \<open>Statements in which no token is written\<close>

lemma lowered_iff: "lowered s \<longleftrightarrow> (\<forall>c \<in> set s. lower_char c = c)"
  by (simp add: lowered_def list_all_iff)

lemma list_all_union:
  "set t \<subseteq> set s \<union> set r \<Longrightarrow> list_all P s \<Longrightarrow> list_all P r \<Longrightarrow> list_all P t"
  unfolding list_all_iff by (meson UnE subsetD)

lemma list_all_subset:
  "set t \<subseteq> set s \<Longrightarrow> list_all P s \<Longrightarrow> list_all P t"
  unfolding list_all_iff by (meson subsetD)

lemma lowered_ReplaceAllString:
  "lowered s \<Longrightarrow> lowered repl \<Longrightarrow> lowered (ReplaceAllString re s repl)"
  unfolding lowered_def by (rule list_all_union [OF set_ReplaceAllString])

lemma lowered_TrimSpace: "lowered s \<Longrightarrow> lowered (TrimSpace s)"
  unfolding lowered_def by (rule list_all_subset [OF set_TrimSpace])

lemma is_digit_lower_char: "is_digit (lower_char c) \<Longrightarrow> is_digit c"
proof (cases "is_upper c")
  case True
  assume "is_digit (lower_char c)"
  moreover have "is_lower (lower_char c)" using True by (rule is_lower_lower_char)
  ultimately show ?thesis by (simp add: is_digit_iff is_lower_iff)
next
  case False
  assume "is_digit (lower_char c)"
  with False show ?thesis by (simp add: lower_char_def)
qed

lemma lowered_ToLower: "lowered (ToLower s)"
  by (simp add: lowered_iff ToLower_def lower_char_idem)

lemma ToLower_lowered: "lowered s \<Longrightarrow> ToLower s = s"
  unfolding lowered_iff ToLower_def by (simp add: map_idI)

lemma lowered_literals:
  "lowered '' ''" "lowered '' = ''" "lowered '', ''" "lowered '' ( ''" "lowered '' ) ''"
  by (simp_all add: lowered_def lower_char_def is_upper_iff)

lemma lowered_spacing: "lowered s \<Longrightarrow> lowered (spacing s)"
  unfolding spacing_def by (intro lowered_ReplaceAllString lowered_literals)

lemma lowered_parens: "lowered s \<Longrightarrow> lowered (parens s)"
  unfolding parens_def by (intro lowered_ReplaceAllString lowered_literals)

lemma lowered_squeeze: "lowered s \<Longrightarrow> lowered (squeeze s)"
  unfolding squeeze_def by (intro lowered_ReplaceAllString lowered_literals)

lemma lowered_front: "lowered (front s)"
  unfolding front_def by (intro lowered_spacing lowered_ToLower)

lemma numbers_no_digit: "\<forall>c \<in> set s. \<not> is_digit c \<Longrightarrow> numbers s = s"
  unfolding numbers_def
  by (induction s) (simp_all add: ReplaceAllString_Plus del: ReplaceAllString.simps(2))

lemma count_front:
  assumes "mark q"
  shows "count_list (front u) q = count_list u q"
proof -
  note m = mark_not_in [OF assms]
  have sp: "q \<noteq> CHR '' ''" using m(1) by auto
  have "count_list (squeeze u) q = count_list u q"
    unfolding squeeze_def using sp
    by (simp add: count_ReplaceAllString rejects_whitespace m(3))
  then show ?thesis
    unfolding front_def TrimSpace_def
    by (simp add: count_spacing [OF assms] count_ToLower [OF assms]
        count_TrimLeft count_TrimRight m(4))
qed

lemma count_parens:
  assumes "mark q" and "q \<noteq> CHR ''(''" and "q \<noteq> CHR '')''"
  shows "count_list (parens s) q = count_list s q"
proof -
  note m = mark_not_in [OF assms(1)]
  have "q \<noteq> CHR '' ''" using m(1) by auto
  then show ?thesis
    unfolding parens_def using assms(2,3)
    by (simp add: count_ReplaceAllString rejects_around m(3))
qed

lemma no_digit_front:
  assumes "list_all (\<lambda>c. \<not> is_digit c) s"
  shows "list_all (\<lambda>c. \<not> is_digit c) (front s)"
proof -
  have l: "list_all (\<lambda>c. \<not> is_digit c) r" if "set r \<subseteq> set '' =,()''" for r
    using that by (auto simp: list_all_iff is_digit_iff)
  have r: "list_all (\<lambda>c. \<not> is_digit c) (ReplaceAllString re t repl)"
    if "list_all (\<lambda>c. \<not> is_digit c) t" and "set repl \<subseteq> set '' =,()''" for re t repl
    using set_ReplaceAllString that(1) l [OF that(2)] by (rule list_all_union)
  have 1: "list_all (\<lambda>c. \<not> is_digit c) (squeeze s)"
    unfolding squeeze_def using assms by (rule r) simp
  have 2: "list_all (\<lambda>c. \<not> is_digit c) (TrimSpace (squeeze s))"
    using set_TrimSpace 1 by (rule list_all_subset)
  have 3: "list_all (\<lambda>c. \<not> is_digit c) (ToLower (TrimSpace (squeeze s)))"
    using 2 is_digit_lower_char unfolding ToLower_def list_all_iff by auto
  show ?thesis
    unfolding front_def spacing_def
    by (intro r 3) simp_all
qed

lemma no_digit_parens:
  assumes "list_all (\<lambda>c. \<not> is_digit c) s"
  shows "list_all (\<lambda>c. \<not> is_digit c) (parens s)"
proof -
  have l: "list_all (\<lambda>c. \<not> is_digit c) r" if "set r \<subseteq> set '' =,()''" for r
    using that by (auto simp: list_all_iff is_digit_iff)
  have r: "list_all (\<lambda>c. \<not> is_digit c) (ReplaceAllString re t repl)"
    if "list_all (\<lambda>c. \<not> is_digit c) t" and "set repl \<subseteq> set '' =,()''" for re t repl
    using set_ReplaceAllString that(1) l [OF that(2)] by (rule list_all_union)
  show ?thesis
    unfolding parens_def by (intro r assms) simp_all
qed

lemma normalizeQuery_tokenless:
  assumes "tokenless x"
  shows "normalizeQuery x = parens (front x)"
proof -
  have d: "list_all (\<lambda>c. \<not> is_digit c) (front x)"
    using assms by (intro no_digit_front) (simp add: tokenless_def)
  then have "numbers (front x) = front x"
    by (intro numbers_no_digit) (simp add: list_all_iff)
  moreover have "quoted (CHR 0x27) (front x) = front x"
    unfolding quoted_def using assms
    by (intro quoted_lone) (simp add: count_front [OF mark_quotes(1)] tokenless_def)
  moreover have "quoted (CHR 0x22) (front x) = front x"
    unfolding quoted_def using assms
    by (intro quoted_lone) (simp add: count_front [OF mark_quotes(2)] tokenless_def)
  ultimately show ?thesis by (simp add: normalizeQuery_steps)
qed

lemma tokenless_normalizeQuery:
  assumes "tokenless x"
  shows "tokenless (normalizeQuery x)"
proof -
  have "list_all (\<lambda>c. \<not> is_digit c) (parens (front x))"
    using assms by (intro no_digit_parens no_digit_front) (simp add: tokenless_def)
  moreover have "count_list (parens (front x)) (CHR 0x27) \<le> 1"
    using assms by (simp add: count_parens [OF mark_quotes(1)] count_front [OF mark_quotes(1)]
        tokenless_def)
  moreover have "count_list (parens (front x)) (CHR 0x22) \<le> 1"
    using assms by (simp add: count_parens [OF mark_quotes(2)] count_front [OF mark_quotes(2)]
        tokenless_def)
  ultimately show ?thesis
    unfolding normalizeQuery_tokenless [OF assms] tokenless_def by blast
qed


section \<open>The second pass\<close>

lemma normalizeQuery_twice_tokenless:
  assumes "tokenless x"
  shows "normalizeQuery (normalizeQuery x) = normalizeQuery x"
proof -
  let ?x' = "ToLower (TrimSpace (squeeze x))"
  have trimmed: "?x' = TrimSpace (squeeze (ToLower x))"
    by (rule ToLower_TrimSpace_squeeze)
  have "c = CHR '' ''" if "c \<in> set ?x'" and "re_space c" for c
  proof -
    from that(1) have "c \<in> set (TrimSpace (squeeze (ToLower x)))"
      unfolding trimmed .
    then have "c \<in> set (squeeze (ToLower x))"
      using set_TrimSpace [of "squeeze (ToLower x)"] by (rule rev_subsetD)
    then show ?thesis using that(2) by (rule squeeze_only_blanks)
  qed
  then have "\<forall>c \<in> set ?x'. re_space c \<longrightarrow> c = CHR '' ''"
    by simp
  then have "\<exists>g ts. ?x' = rend g ts \<and> tokens_ok ts"
    by (rule exists_rend)
  then obtain g ts where r: "?x' = rend g ts" and ok: "tokens_ok ts"
    by (elim exE conjE)
  let ?gt = "(g, ts)"
  have rp: "?x' = rendp ?gt" using r by (simp add: rendp_def)
  have ok0: "tokens_ok (snd ?gt)" using ok by simp
  have "rend g ts = TrimSpace (squeeze (ToLower x))" using r trimmed by simp
  then have t: "tight ?gt" by (rule tight_trimmed)
  have ok1: "tokens_ok (snd (regap spacing_rule ?gt))"
    using ok by (simp add: tokens_ok_regap)
  have first: "normalizeQuery x = rendp (regap normal_rule ?gt)"
    unfolding normalizeQuery_tokenless [OF assms] front_def rp spacing_regap [OF ok0]
      parens_regap [OF ok1]
    by (simp add: regap_then normal_rule_def)
  let ?y = "normalizeQuery x"
  let ?n = "regap normal_rule ?gt"
  have py: "tokenless ?y"
    using assms by (rule tokenless_normalizeQuery)
  have ly: "lowered ?y"
    unfolding normalizeQuery_tokenless [OF assms] by (intro lowered_parens lowered_front)
  have okn: "tokens_ok (snd ?n)" using ok by (simp add: tokens_ok_regap)
  have sq: "squeeze ?y = rendp (regap squeeze_rule ?n)"
    unfolding first by (rule squeeze_regap_text [OF okn])
  have "edges_ok (snd (regap squeeze_rule ?n))"
    using t by (simp add: edges_ok_regap tight_def)
  then have tr: "TrimSpace (squeeze ?y) = rendp (regap trim_rule (regap squeeze_rule ?n))"
    unfolding sq by (rule TrimSpace_regap)
  have "lowered (TrimSpace (squeeze ?y))"
    using ly by (intro lowered_TrimSpace lowered_squeeze)
  then have lo: "ToLower (TrimSpace (squeeze ?y)) = TrimSpace (squeeze ?y)"
    by (rule ToLower_lowered)
  let ?m = "regap trim_rule (regap squeeze_rule ?n)"
  have okm: "tokens_ok (snd ?m)" using ok by (simp add: tokens_ok_regap)
  have okm1: "tokens_ok (snd (regap spacing_rule ?m))" using ok by (simp add: tokens_ok_regap)
  have lo': "ToLower (rendp ?m) = rendp ?m"
    using lo unfolding tr .
  have "normalizeQuery ?y = parens (spacing (rendp ?m))"
    unfolding normalizeQuery_tokenless [OF py] front_def tr lo' ..
  also have "\<dots> = rendp (regap parens_rule (regap spacing_rule ?m))"
    unfolding spacing_regap [OF okm] parens_regap [OF okm1] ..
  also have "regap parens_rule (regap spacing_rule ?m) = regap second_rule ?gt"
    by (simp add: regap_then then_rule_assoc second_rule_def normal_rule_def)
  also have "regap second_rule ?gt = regap normal_rule ?gt"
    using t by (rule regap_second)
  finally show ?thesis unfolding first .
qed

section \<open>Normalizing twice\<close>

text \<open>
  Claim C4 says that \<open>normalizeQuery\<close> is idempotent on every statement. The first pass
  writes the tokens \<open>N\<close> and \<open>S\<close> in upper case and the second pass lower-cases the
  whole text: \<open>1\<close> becomes \<open>N\<close>, and \<open>N\<close> becomes \<open>n\<close>.
\<close>

theorem idempotence_counterexample:
  "normalizeQuery ''1'' = ''N'' \<and> normalizeQuery (normalizeQuery ''1'') = ''n''
   \<and> normalizeQuery (normalizeQuery ''1'') \<noteq> normalizeQuery ''1''"
  by code_simp


text \<open>
  Claim C4, amended. On a statement in which no token is written, that is, with no decimal
  digit, at most one single quote and at most one double quote, the result of
  \<open>normalizeQuery\<close> is a fixed point of \<open>normalizeQuery\<close>. The example has a quote of each
  kind that is not closed, as in a statement cut out of the string of a host program.
\<close>

theorem normalizeQuery_idempotent:
  assumes "tokenless x"
  shows "normalizeQuery (normalizeQuery x) = normalizeQuery x"
  using assms by (rule normalizeQuery_twice_tokenless)

theorem normalizeQuery_idempotent_witness:
  "tokenless ''SELECT a  FROM t WHERE (b=  'X ,C) AND d = \" .''
   \<and> normalizeQuery ''SELECT a  FROM t WHERE (b=  'X ,C) AND d = \" .''
       = ''select a from t where ( b = 'x, c ) and d = \" .''
   \<and> normalizeQuery (normalizeQuery ''SELECT a  FROM t WHERE (b=  'X ,C) AND d = \" .'')
       = normalizeQuery ''SELECT a  FROM t WHERE (b=  'X ,C) AND d = \" .''"
proof -
  have p: "tokenless ''SELECT a  FROM t WHERE (b=  'X ,C) AND d = \" .''" by code_simp
  have v: "normalizeQuery ''SELECT a  FROM t WHERE (b=  'X ,C) AND d = \" .''
      = ''select a from t where ( b = 'x, c ) and d = \" .''" by code_simp
  show ?thesis using p v normalizeQuery_idempotent [OF p] by blast
qed

end
